theory Spec2Isabelle
  imports Complex_Main "HOL-Library.AList" "HOL-Library.Product_Lexorder"
begin

section \<open>Strings and characters\<close>

text \<open>
  A Python \<open>str\<close> is modelled as a \<open>string\<close>, a list of \<open>char\<close>; a \<open>char\<close> stands for the
  code point of the same number, so the model covers the strings over the code points 0 to
  255. The character classes below are those of Python 3 on that range: \<open>str.isalnum\<close>,
  the regular-expression classes \<open>\\w\<close> (alphanumeric or underscore) and \<open>\\s\<close> (which is also
  the whitespace of \<open>str.split\<close> and \<open>str.strip\<close>), and \<open>str.lower\<close>, which on this range
  maps one character to one character.
\<close>

definition is_alnum_chr :: "char \<Rightarrow> bool" where
  "is_alnum_chr c =
     (let n = (of_char c :: nat) in
        (48 \<le> n \<and> n \<le> 57) \<or> (65 \<le> n \<and> n \<le> 90) \<or> (97 \<le> n \<and> n \<le> 122) \<or>
        n = 170 \<or> n = 178 \<or> n = 179 \<or> n = 181 \<or> n = 185 \<or> n = 186 \<or>
        (188 \<le> n \<and> n \<le> 190) \<or> (192 \<le> n \<and> n \<le> 214) \<or> (216 \<le> n \<and> n \<le> 246) \<or>
        248 \<le> n)"

definition is_word_chr :: "char \<Rightarrow> bool" where
  "is_word_chr c = (is_alnum_chr c \<or> c = CHR ''_'')"

definition is_space_chr :: "char \<Rightarrow> bool" where
  "is_space_chr c =
     (let n = (of_char c :: nat) in
        (9 \<le> n \<and> n \<le> 13) \<or> (28 \<le> n \<and> n \<le> 32) \<or> n = 133 \<or> n = 160)"

definition is_ascii_letter :: "char \<Rightarrow> bool" where
  "is_ascii_letter c =
     (let n = (of_char c :: nat) in (65 \<le> n \<and> n \<le> 90) \<or> (97 \<le> n \<and> n \<le> 122))"

definition lower_chr :: "char \<Rightarrow> char" where
  "lower_chr c =
     (let n = (of_char c :: nat) in
        if (65 \<le> n \<and> n \<le> 90) \<or> (192 \<le> n \<and> n \<le> 222 \<and> n \<noteq> 215)
        then char_of (n + 32) else c)"

definition lower :: "string \<Rightarrow> string" where
  "lower s = map lower_chr s"

text \<open>\<open>sep.join(parts)\<close>.\<close>

fun join :: "string \<Rightarrow> string list \<Rightarrow> string" where
  "join sep [] = []"
| "join sep [x] = x"
| "join sep (x # y # ys) = x @ sep @ join sep (y # ys)"

text \<open>\<open>s.split()\<close> with no argument: the maximal runs of non-whitespace characters.\<close>

function split_ws :: "string \<Rightarrow> string list" where
  "split_ws s =
     (let s' = dropWhile is_space_chr s in
        if s' = [] then []
        else takeWhile (\<lambda>c. \<not> is_space_chr c) s' #
             split_ws (dropWhile (\<lambda>c. \<not> is_space_chr c) s'))"
  by pat_completeness auto

termination
proof (relation "measure length", goal_cases)
  case 1
  show ?case by simp
next
  case (2 s s')
  then obtain c cs where s': "s' = c # cs" and c: "\<not> is_space_chr c"
    by (metis hd_dropWhile list.exhaust_sel)
  have "length (dropWhile (\<lambda>c. \<not> is_space_chr c) s') \<le> length cs"
    using s' c by (simp add: length_dropWhile_le)
  moreover have "length s' \<le> length s"
    using 2 by (simp add: length_dropWhile_le)
  ultimately show ?case using s' by simp
qed

declare split_ws.simps [simp del]

section \<open>String normalisation (\<open>SmartBibtexValidator.normalize_string\<close>)\<close>

text \<open>
  One match of the pattern \<open>\\\\[a-zA-Z]+\\{([^}]*)\\}\<close> at the head of the string: a backslash,
  the longest run of ASCII letters (at least one), an opening brace, the longest run of
  characters other than the closing brace, and a closing brace. Both runs are greedy and a
  shorter run can never be followed by the character the pattern wants next, so the match is
  unique. The result is the captured group and the rest of the string after the match.
\<close>

definition match_latex :: "string \<Rightarrow> (string \<times> string) option" where
  "match_latex s =
     (case s of
        [] \<Rightarrow> None
      | c # r \<Rightarrow>
          if c \<noteq> CHR 0x5C then None
          else if takeWhile is_ascii_letter r = [] then None
          else (case dropWhile is_ascii_letter r of
                  [] \<Rightarrow> None
                | d # r2 \<Rightarrow>
                    if d \<noteq> CHR ''{'' then None
                    else (case dropWhile (\<lambda>x. x \<noteq> CHR ''}'') r2 of
                            [] \<Rightarrow> None
                          | e # rest \<Rightarrow> Some (takeWhile (\<lambda>x. x \<noteq> CHR ''}'') r2, rest))))"

lemma match_latex_shorter:
  assumes "match_latex s = Some (inner, rest)"
  shows "length rest < length s"
proof -
  from assms obtain c r where s: "s = c # r"
    by (cases s) (auto simp: match_latex_def)
  from assms s obtain d r2 where r: "dropWhile is_ascii_letter r = d # r2"
    by (auto simp: match_latex_def split: if_splits list.splits)
  from assms s r obtain e where r2: "dropWhile (\<lambda>x. x \<noteq> CHR ''}'') r2 = e # rest"
    by (auto simp: match_latex_def split: if_splits list.splits)
  have "length (e # rest) \<le> length r2"
    using length_dropWhile_le [of "\<lambda>x. x \<noteq> CHR ''}''" r2] r2 by simp
  moreover have "length (d # r2) \<le> length r"
    using length_dropWhile_le [of is_ascii_letter r] r by simp
  ultimately show ?thesis using s by simp
qed

text \<open>
  \<open>re.sub(pattern, r"\\1", s)\<close>: scan from the left; where the pattern matches, emit the
  captured group and go on after the match, otherwise emit the character and go on.
\<close>

function strip_latex :: "string \<Rightarrow> string" where
  "strip_latex [] = []"
| "strip_latex (c # cs) =
     (case match_latex (c # cs) of
        Some (inner, rest) \<Rightarrow> inner @ strip_latex rest
      | None \<Rightarrow> c # strip_latex cs)"
  by pat_completeness auto

termination
  by (relation "measure length") (auto dest: match_latex_shorter)

definition is_brace :: "char \<Rightarrow> bool" where
  "is_brace c = (c = CHR ''{'' \<or> c = CHR ''}'')"

text \<open>The replacement of \<open>re.sub(r"[^\\w\\s]", " ", ...)\<close> on one character.\<close>

definition clean_chr :: "char \<Rightarrow> char" where
  "clean_chr c = (if is_word_chr c \<or> is_space_chr c then c else CHR '' '')"

text \<open>
  \<open>normalize_string\<close>. The argument is a string or \<open>None\<close>; \<open>not s\<close> holds for \<open>None\<close> and for
  the empty string. \<open>normalize_str\<close> is the function on a string.
\<close>

definition normalize_str :: "string \<Rightarrow> string" where
  "normalize_str s =
     (if s = [] then []
      else join '' '' (split_ws (map clean_chr (lower (filter (\<lambda>c. \<not> is_brace c) (strip_latex s))))))"

definition normalize_string :: "string option \<Rightarrow> string" where
  "normalize_string s = (case s of None \<Rightarrow> [] | Some t \<Rightarrow> normalize_str t)"

text \<open>
  A word of a normalised string: not empty, made of word characters (alphanumeric or
  underscore) that \<open>str.lower\<close> leaves unchanged.
\<close>

definition norm_word :: "string \<Rightarrow> bool" where
  "norm_word t = (t \<noteq> [] \<and> (\<forall>c \<in> set t. is_word_chr c \<and> lower_chr c = c))"

section \<open>Sequence similarity (\<open>difflib.SequenceMatcher\<close> of the Python library)\<close>

text \<open>
  \<open>similarity\<close> calls \<open>SequenceMatcher(None, a, b).ratio()\<close>. The definitions below follow
  the library's \<open>difflib.py\<close>: \<open>__chain_b\<close>, \<open>find_longest_match\<close>, \<open>get_matching_blocks\<close>,
  \<open>_calculate_ratio\<close> and \<open>ratio\<close>, with \<open>isjunk = None\<close> (so the junk set is empty, the tests
  \<open>not isbjunk(...)\<close> are true and the two loops over junk never run) and \<open>autojunk = True\<close>.

  \<open>b2j\<close> maps an element of \<open>b\<close> to the ascending list of its positions in \<open>b\<close>; with 200
  elements or more, an element that fills more than 1 percent of \<open>b\<close> plus one position is
  "popular" and is removed from the map.
\<close>

definition indices_of :: "'a list \<Rightarrow> 'a \<Rightarrow> nat list" where
  "indices_of b x = filter (\<lambda>j. b ! j = x) [0..<length b]"

definition chain_b :: "'a list \<Rightarrow> 'a \<Rightarrow> nat list" where
  "chain_b b x =
     (let idxs = indices_of b x; n = length b in
        if n \<ge> 200 \<and> length idxs > n div 100 + 1 then [] else idxs)"

type_synonym best = "nat \<times> nat \<times> nat"

fun inner_loop ::
  "nat \<Rightarrow> nat \<Rightarrow> nat \<Rightarrow> (nat \<rightharpoonup> nat) \<Rightarrow> nat list \<Rightarrow> (nat \<rightharpoonup> nat) \<times> best \<Rightarrow> (nat \<rightharpoonup> nat) \<times> best"
where
  "inner_loop i blo bhi j2len [] st = st"
| "inner_loop i blo bhi j2len (j # js) (newj2len, besti, bestj, bestsize) =
     (if j < blo then inner_loop i blo bhi j2len js (newj2len, besti, bestj, bestsize)
      else if j \<ge> bhi then (newj2len, besti, bestj, bestsize)
      else
        let k = (if j = 0 then 0 else (case j2len (j - 1) of None \<Rightarrow> 0 | Some v \<Rightarrow> v)) + 1 in
          if k > bestsize
          then inner_loop i blo bhi j2len js (newj2len(j \<mapsto> k), i + 1 - k, j + 1 - k, k)
          else inner_loop i blo bhi j2len js (newj2len(j \<mapsto> k), besti, bestj, bestsize))"

fun outer_loop ::
  "'a list \<Rightarrow> ('a \<Rightarrow> nat list) \<Rightarrow> nat \<Rightarrow> nat \<Rightarrow> nat list \<Rightarrow> (nat \<rightharpoonup> nat) \<times> best \<Rightarrow> (nat \<rightharpoonup> nat) \<times> best"
where
  "outer_loop a b2j blo bhi [] st = st"
| "outer_loop a b2j blo bhi (i # is) (j2len, bst) =
     outer_loop a b2j blo bhi is (inner_loop i blo bhi j2len (b2j (a ! i)) (Map.empty, bst))"

function extend_left :: "'a list \<Rightarrow> 'a list \<Rightarrow> nat \<Rightarrow> nat \<Rightarrow> best \<Rightarrow> best" where
  "extend_left a b alo blo (besti, bestj, bestsize) =
     (if besti > alo \<and> bestj > blo \<and> a ! (besti - 1) = b ! (bestj - 1)
      then extend_left a b alo blo (besti - 1, bestj - 1, bestsize + 1)
      else (besti, bestj, bestsize))"
  by pat_completeness auto

termination
  by (relation "measure (\<lambda>(a, b, alo, blo, besti, bestj, bestsize). besti)") auto

function extend_right :: "'a list \<Rightarrow> 'a list \<Rightarrow> nat \<Rightarrow> nat \<Rightarrow> best \<Rightarrow> best" where
  "extend_right a b ahi bhi (besti, bestj, bestsize) =
     (if besti + bestsize < ahi \<and> bestj + bestsize < bhi \<and> a ! (besti + bestsize) = b ! (bestj + bestsize)
      then extend_right a b ahi bhi (besti, bestj, bestsize + 1)
      else (besti, bestj, bestsize))"
  by pat_completeness auto

termination
  by (relation "measure (\<lambda>(a, b, ahi, bhi, besti, bestj, bestsize). ahi - (besti + bestsize))") auto

declare extend_left.simps [simp del] extend_right.simps [simp del]

definition find_longest_match ::
  "'a list \<Rightarrow> 'a list \<Rightarrow> ('a \<Rightarrow> nat list) \<Rightarrow> nat \<Rightarrow> nat \<Rightarrow> nat \<Rightarrow> nat \<Rightarrow> best" where
  "find_longest_match a b b2j alo ahi blo bhi =
     extend_right a b ahi bhi
       (extend_left a b alo blo
          (snd (outer_loop a b2j blo bhi [alo..<ahi] (Map.empty, alo, blo, 0))))"

text \<open>
  The indices are natural numbers, and the code computes \<open>i-k+1\<close> and \<open>j-k+1\<close> on integers.
  The bounds below show that no subtraction of the model is cut off at zero: a length stored
  in \<open>j2len\<close> under \<open>j\<close> is at most \<open>j + 1 - blo\<close> and at most the number of rows seen, so
  \<open>k \<le> i + 1 - alo\<close> and \<open>k \<le> j + 1 - blo\<close> where \<open>k\<close> is subtracted. They also give the
  result of \<open>find_longest_match\<close> its place inside the two ranges, which is what makes the loop
  of \<open>get_matching_blocks\<close> terminate.
\<close>

definition cells_ok :: "nat \<Rightarrow> nat \<Rightarrow> (nat \<rightharpoonup> nat) \<Rightarrow> bool" where
  "cells_ok c blo m = (\<forall>j v. m j = Some v \<longrightarrow> v \<le> c \<and> blo \<le> j \<and> v \<le> j + 1 - blo)"

lemma inner_loop_bounds:
  assumes "cells_ok (i - alo) blo j2len" and "alo \<le> i"
    and "cells_ok (i + 1 - alo) blo m" and "alo \<le> besti" and "besti + bestsize \<le> i + 1"
    and "blo \<le> bestj"
    and "(bestsize = 0 \<and> besti = alo) \<or> (bestsize \<noteq> 0 \<and> bestj + bestsize \<le> bhi)"
    and "inner_loop i blo bhi j2len js (m, besti, bestj, bestsize) = (m', bi', bj', bs')"
  shows "cells_ok (i + 1 - alo) blo m' \<and> alo \<le> bi' \<and> bi' + bs' \<le> i + 1 \<and>
         blo \<le> bj' \<and> ((bs' = 0 \<and> bi' = alo) \<or> (bs' \<noteq> 0 \<and> bj' + bs' \<le> bhi))"
  using assms(3-)
proof (induction js arbitrary: m besti bestj bestsize)
  case Nil
  then show ?case by simp
next
  case (Cons j js)
  define k where "k = (if j = 0 then 0 else (case j2len (j - 1) of None \<Rightarrow> 0 | Some v \<Rightarrow> v)) + 1"
  show ?case
  proof (cases "j < blo")
    case True
    with Cons show ?thesis by simp
  next
    case nlo: False
    show ?thesis
    proof (cases "j \<ge> bhi")
      case True
      with nlo Cons.prems show ?thesis by simp
    next
      case nhi: False
      have kb: "k \<le> i + 1 - alo \<and> k \<le> j + 1 - blo"
      proof (cases "j = 0")
        case True
        then have "k = 1" by (simp add: k_def)
        with assms(2) nlo show ?thesis by linarith
      next
        case jpos: False
        show ?thesis
        proof (cases "j2len (j - 1)")
          case None
          with jpos have "k = 1" by (simp add: k_def)
          with assms(2) nlo show ?thesis by linarith
        next
          case (Some v)
          with assms(1) have "v \<le> i - alo" and "blo \<le> j - 1" and "v \<le> j - 1 + 1 - blo"
            unfolding cells_ok_def by blast+
          moreover have "k = v + 1" using jpos Some by (simp add: k_def)
          ultimately show ?thesis using assms(2) jpos by linarith
        qed
      qed
      have m1: "cells_ok (i + 1 - alo) blo (m(j \<mapsto> k))"
        using Cons.prems(1) kb nlo by (auto simp: cells_ok_def)
      show ?thesis
      proof (cases "k > bestsize")
        case True
        have run: "inner_loop i blo bhi j2len js (m(j \<mapsto> k), i + 1 - k, j + 1 - k, k) = (m', bi', bj', bs')"
          using Cons.prems(6) nlo nhi True by (simp add: k_def Let_def)
        have "alo \<le> i + 1 - k" using kb assms(2) by linarith
        moreover have "i + 1 - k + k \<le> i + 1" using kb by linarith
        moreover have "blo \<le> j + 1 - k" using kb nlo by linarith
        moreover have "(k = 0 \<and> i + 1 - k = alo) \<or> (k \<noteq> 0 \<and> j + 1 - k + k \<le> bhi)"
          using kb nhi True by linarith
        ultimately show ?thesis using Cons.IH [OF m1 _ _ _ _ run] by blast
      next
        case nb: False
        have run: "inner_loop i blo bhi j2len js (m(j \<mapsto> k), besti, bestj, bestsize) = (m', bi', bj', bs')"
          using Cons.prems(6) nlo nhi nb by (simp add: k_def Let_def)
        show ?thesis using Cons.IH [OF m1 Cons.prems(2,3,4,5) run] .
      qed
    qed
  qed
qed

lemma outer_loop_bounds:
  assumes "cells_ok (i0 - alo) blo j2len" and "alo \<le> i0" and "alo \<le> besti" and "besti + bestsize \<le> i0"
    and "blo \<le> bestj"
    and "(bestsize = 0 \<and> besti = alo) \<or> (bestsize \<noteq> 0 \<and> bestj + bestsize \<le> bhi)"
    and "outer_loop a b2j blo bhi [i0..<ahi] (j2len, besti, bestj, bestsize) = (m', bi', bj', bs')"
  shows "alo \<le> bi' \<and> bi' + bs' \<le> max i0 ahi \<and> blo \<le> bj' \<and>
         ((bs' = 0 \<and> bi' = alo) \<or> (bs' \<noteq> 0 \<and> bj' + bs' \<le> bhi))"
  using assms
proof (induction "ahi - i0" arbitrary: i0 j2len besti bestj bestsize)
  case 0
  then show ?case by simp
next
  case (Suc n)
  then have lt: "i0 < ahi" by simp
  then have up: "[i0..<ahi] = i0 # [Suc i0..<ahi]" by (simp add: upt_conv_Cons)
  obtain m1 b1 c1 s1 where
    il: "inner_loop i0 blo bhi j2len (b2j (a ! i0)) (Map.empty, besti, bestj, bestsize) = (m1, b1, c1, s1)"
    by (metis prod_cases4)
  have e: "cells_ok (i0 + 1 - alo) blo Map.empty" by (simp add: cells_ok_def)
  have "besti + bestsize \<le> i0 + 1" using Suc.prems(4) by simp
  from inner_loop_bounds [OF Suc.prems(1,2) e Suc.prems(3) this Suc.prems(5,6) il]
  have b: "cells_ok (Suc i0 - alo) blo m1" "alo \<le> b1" "b1 + s1 \<le> Suc i0"
    "blo \<le> c1" "(s1 = 0 \<and> b1 = alo) \<or> (s1 \<noteq> 0 \<and> c1 + s1 \<le> bhi)" by simp_all
  have rest: "outer_loop a b2j blo bhi [Suc i0..<ahi] (m1, b1, c1, s1) = (m', bi', bj', bs')"
    using Suc.prems(7) il by (simp add: up)
  have "n = ahi - Suc i0" using Suc.hyps(2) by simp
  from Suc.hyps(1) [OF this b(1) _ b(2,3,4,5) rest] Suc.prems(2) lt
  show ?case by (simp add: max_def split: if_splits)
qed

lemma extend_left_bounds:
  assumes "extend_left a b alo blo (besti, bestj, bestsize) = (i, j, k)"
    and "alo \<le> besti" and "blo \<le> bestj"
  shows "alo \<le> i \<and> blo \<le> j \<and> i + k = besti + bestsize \<and> j + k = bestj + bestsize \<and> bestsize \<le> k"
  using assms
proof (induction a b alo blo "(besti, bestj, bestsize)" arbitrary: besti bestj bestsize
    rule: extend_left.induct)
  case (1 a b alo blo besti bestj bestsize)
  show ?case
  proof (cases "besti > alo \<and> bestj > blo \<and> a ! (besti - 1) = b ! (bestj - 1)")
    case True
    then have run: "extend_left a b alo blo (besti - 1, bestj - 1, bestsize + 1) = (i, j, k)"
      using "1.prems"(1) by (subst (asm) extend_left.simps) simp
    from True have lt: "alo < besti" "blo < bestj" by blast+
    then have "alo \<le> besti - 1" and "blo \<le> bestj - 1" by simp_all
    from "1.hyps" [OF True run this]
    have "alo \<le> i \<and> blo \<le> j \<and> i + k = besti - 1 + (bestsize + 1) \<and>
          j + k = bestj - 1 + (bestsize + 1) \<and> bestsize + 1 \<le> k" .
    with lt show ?thesis by simp
  next
    case False
    then have "(besti, bestj, bestsize) = (i, j, k)"
      using "1.prems"(1) by (subst (asm) extend_left.simps) auto
    with "1.prems"(2,3) show ?thesis by simp
  qed
qed

lemma extend_right_bounds:
  assumes "extend_right a b ahi bhi (besti, bestj, bestsize) = (i, j, k)"
  shows "i = besti \<and> j = bestj \<and> bestsize \<le> k \<and>
         (k = bestsize \<or> (i + k \<le> ahi \<and> j + k \<le> bhi))"
  using assms
proof (induction a b ahi bhi "(besti, bestj, bestsize)" arbitrary: besti bestj bestsize
    rule: extend_right.induct)
  case (1 a b ahi bhi besti bestj bestsize)
  show ?case
  proof (cases "besti + bestsize < ahi \<and> bestj + bestsize < bhi \<and> a ! (besti + bestsize) = b ! (bestj + bestsize)")
    case True
    then have "extend_right a b ahi bhi (besti, bestj, bestsize + 1) = (i, j, k)"
      using "1.prems"(1) by (subst (asm) extend_right.simps) simp
    then have "i = besti \<and> j = bestj \<and> bestsize + 1 \<le> k \<and>
               (k = bestsize + 1 \<or> (i + k \<le> ahi \<and> j + k \<le> bhi))"
      using "1.hyps" [OF True] by blast
    moreover from True have "besti + bestsize < ahi" "bestj + bestsize < bhi" by blast+
    ultimately show ?thesis by auto
  next
    case False
    then have "(besti, bestj, bestsize) = (i, j, k)"
      using "1.prems"(1) by (subst (asm) extend_right.simps) auto
    then show ?thesis by simp
  qed
qed

lemma find_longest_match_bounds:
  assumes "find_longest_match a b b2j alo ahi blo bhi = (i, j, k)" and "k \<noteq> 0"
  shows "alo \<le> i \<and> i + k \<le> ahi \<and> blo \<le> j \<and> j + k \<le> bhi"
proof -
  obtain m0 i0 j0 k0 where
    ol: "outer_loop a b2j blo bhi [alo..<ahi] (Map.empty, alo, blo, 0) = (m0, i0, j0, k0)"
    by (metis prod_cases4)
  have e: "cells_ok (alo - alo) blo Map.empty" by (simp add: cells_ok_def)
  from outer_loop_bounds [OF e _ _ _ _ _ ol]
  have b0: "alo \<le> i0" "i0 + k0 \<le> max alo ahi" "blo \<le> j0"
    "(k0 = 0 \<and> i0 = alo) \<or> (k0 \<noteq> 0 \<and> j0 + k0 \<le> bhi)"
    by simp_all
  obtain i1 j1 k1 where el: "extend_left a b alo blo (i0, j0, k0) = (i1, j1, k1)"
    by (metis prod_cases3)
  from extend_left_bounds [OF el b0(1,3)]
  have b1: "alo \<le> i1" "blo \<le> j1" "i1 + k1 = i0 + k0" "j1 + k1 = j0 + k0" "k0 \<le> k1" by simp_all
  have er: "extend_right a b ahi bhi (i1, j1, k1) = (i, j, k)"
    using assms(1) ol el by (simp add: find_longest_match_def)
  from extend_right_bounds [OF er]
  have b2: "i = i1" "j = j1" "k1 \<le> k" "k = k1 \<or> (i + k \<le> ahi \<and> j + k \<le> bhi)" by auto
  show ?thesis
  proof (cases "k = k1")
    case False
    with b1 b2 show ?thesis by simp
  next
    case same: True
    with assms(2) have k1: "k1 \<noteq> 0" by simp
    have k0: "k0 \<noteq> 0"
    proof
      assume z: "k0 = 0"
      with b0(4) b1(3) have "i0 = alo" and "i1 + k1 = alo" by auto
      with b1(1) k1 show False by simp
    qed
    with b0(4) have jb: "j0 + k0 \<le> bhi" by simp
    have "alo \<le> ahi"
    proof (rule ccontr)
      assume "\<not> alo \<le> ahi"
      then have "[alo..<ahi] = []" by simp
      with ol have "k0 = 0" by simp
      with k0 show False by simp
    qed
    with b0(2) have "i0 + k0 \<le> ahi" by (simp add: max_def)
    with jb b1 b2 same show ?thesis by simp
  qed
qed

type_synonym range4 = "nat \<times> nat \<times> nat \<times> nat"

function mb_loop ::
  "'a list \<Rightarrow> 'a list \<Rightarrow> ('a \<Rightarrow> nat list) \<Rightarrow> range4 list \<Rightarrow> best list \<Rightarrow> best list" where
  "mb_loop a b b2j [] blocks = blocks"
| "mb_loop a b b2j ((alo, ahi, blo, bhi) # queue) blocks =
     (case find_longest_match a b b2j alo ahi blo bhi of
        (i, j, k) \<Rightarrow>
          if k \<noteq> 0 then
            mb_loop a b b2j
              ((if i + k < ahi \<and> j + k < bhi then [(i + k, ahi, j + k, bhi)] else []) @
               (if alo < i \<and> blo < j then [(alo, i, blo, j)] else []) @ queue)
              (blocks @ [(i, j, k)])
          else mb_loop a b b2j queue blocks)"
  by pat_completeness auto

termination
proof (relation "measure (\<lambda>(a, b, b2j, queue, blocks).
          sum_list (map (\<lambda>(alo, ahi, blo, bhi). 2 * (ahi - alo) + 1) queue))", goal_cases)
  case 1
  show ?case by simp
next
  case 2
  then show ?case
    by (auto dest!: sym [of "(_, _, _)"] dest: find_longest_match_bounds)
next
  case 3
  then show ?case by simp
qed

fun collapse :: "best list \<Rightarrow> best \<Rightarrow> best list \<Rightarrow> best list" where
  "collapse [] (i1, j1, k1) non_adjacent =
     (if k1 \<noteq> 0 then non_adjacent @ [(i1, j1, k1)] else non_adjacent)"
| "collapse ((i2, j2, k2) # rest) (i1, j1, k1) non_adjacent =
     (if i1 + k1 = i2 \<and> j1 + k1 = j2 then collapse rest (i1, j1, k1 + k2) non_adjacent
      else collapse rest (i2, j2, k2)
             (if k1 \<noteq> 0 then non_adjacent @ [(i1, j1, k1)] else non_adjacent))"

definition get_matching_blocks :: "'a list \<Rightarrow> 'a list \<Rightarrow> best list" where
  "get_matching_blocks a b =
     collapse (sort (mb_loop a b (chain_b b) [(0, length a, 0, length b)] [])) (0, 0, 0) []
       @ [(length a, length b, 0)]"

definition calculate_ratio :: "nat \<Rightarrow> nat \<Rightarrow> rat" where
  "calculate_ratio matches len = (if len \<noteq> 0 then 2 * of_nat matches / of_nat len else 1)"

definition ratio :: "'a list \<Rightarrow> 'a list \<Rightarrow> rat" where
  "ratio a b =
     calculate_ratio (sum_list (map (\<lambda>(i, j, k). k) (get_matching_blocks a b))) (length a + length b)"

text \<open>
  The ratio is the float \<open>2.0 * matches / length\<close> in Python. It is modelled by the rational
  number of the same value: the division of two integers below \<open>2^52\<close> is rounded to the
  nearest float, rounding is monotone, and the thresholds of the validator are compared as
  floats too, so a comparison of the ratio with \<open>0.75\<close>, \<open>0.6\<close>, \<open>0.85\<close> or \<open>1.0\<close> has the same
  result on the rationals for all strings of fewer than \<open>2^50\<close> characters.
\<close>

definition similarity :: "string \<Rightarrow> string \<Rightarrow> rat" where
  "similarity a b = ratio (normalize_string (Some a)) (normalize_string (Some b))"

text \<open>
  For the proof that a sequence is wholly matched with itself: \<open>nonpop\<close> says that an element
  is in \<open>b2j\<close>, \<open>mt s i j\<close> that position \<open>j\<close> is tried for position \<open>i\<close>, and \<open>lrun s i j\<close> is the
  length of the run of such matches that ends at \<open>(i, j)\<close>, the value the inner loop stores in
  \<open>newj2len[j]\<close>.
\<close>

definition nonpop :: "'a list \<Rightarrow> 'a \<Rightarrow> bool" where
  "nonpop s x = (\<not> (length s \<ge> 200 \<and> length (indices_of s x) > length s div 100 + 1))"

definition mt :: "'a list \<Rightarrow> nat \<Rightarrow> nat \<Rightarrow> bool" where
  "mt s i j = (i < length s \<and> j < length s \<and> s ! i = s ! j \<and> nonpop s (s ! i))"

fun lrun :: "'a list \<Rightarrow> nat \<Rightarrow> nat \<Rightarrow> nat" where
  "lrun s 0 j = (if mt s 0 j then 1 else 0)"
| "lrun s (Suc i) j =
     (if mt s (Suc i) j then (case j of 0 \<Rightarrow> 1 | Suc j' \<Rightarrow> lrun s i j' + 1) else 0)"

definition val :: "(nat \<rightharpoonup> nat) \<Rightarrow> nat \<Rightarrow> nat" where
  "val m j = (case m j of None \<Rightarrow> 0 | Some v \<Rightarrow> v)"

definition rowinv :: "'a list \<Rightarrow> nat \<Rightarrow> (nat \<rightharpoonup> nat) \<Rightarrow> bool" where
  "rowinv s i j2len = (\<forall>j. val j2len j = (case i of 0 \<Rightarrow> 0 | Suc i' \<Rightarrow> lrun s i' j))"

section \<open>Dictionaries, entries and field maps\<close>

type_synonym entry = "(string \<times> string) list"

type_synonym fieldmap = "(string \<times> string) list"

definition dict_get :: "(string \<times> 'v) list \<Rightarrow> string \<Rightarrow> 'v option" where
  "dict_get d k = map_of d k"

definition get_or :: "(string \<times> string) list \<Rightarrow> string \<Rightarrow> string \<Rightarrow> string" where
  "get_or d k dflt = (case map_of d k of None \<Rightarrow> dflt | Some v \<Rightarrow> v)"

definition strip :: "string \<Rightarrow> string" where
  "strip s = rev (dropWhile is_space_chr (rev (dropWhile is_space_chr s)))"

function split_on :: "string \<Rightarrow> string \<Rightarrow> string \<Rightarrow> string list" where
  "split_on sep cur [] = [cur]"
| "split_on sep cur (c # cs) =
     (if sep \<noteq> [] \<and> take (length sep) (c # cs) = sep
      then cur # split_on sep [] (drop (length sep) (c # cs))
      else split_on sep (cur @ [c]) cs)"
  by pat_completeness auto

termination
  by (relation "measure (\<lambda>(sep, cur, s). length s)") auto

datatype pyval = PStr string | PList "string list"

fun authors_to_list :: "pyval \<Rightarrow> string list" where
  "authors_to_list (PStr s) =
     (if s = [] then []
      else map strip (filter (\<lambda>a. strip a \<noteq> []) (split_on '' and '' [] s)))"
| "authors_to_list (PList l) =
     (if l = [] then []
      else map strip (filter (\<lambda>a. strip a \<noteq> []) l))"

fun show_nat :: "nat \<Rightarrow> string" where
  "show_nat n =
     (if n < 10 then [char_of (48 + n)]
      else show_nat (n div 10) @ [char_of (48 + n mod 10)])"

declare show_nat.simps [simp del]

definition quote_pair :: "string \<times> string \<Rightarrow> string" where
  "quote_pair p = [CHR 0x27] @ fst p @ [CHR 0x27] @ '' vs '' @ [CHR 0x27] @ snd p @ [CHR 0x27]"

definition author_issues :: "string \<Rightarrow> string \<Rightarrow> string list" where
  "author_issues orig corr =
     (let orig_authors = authors_to_list (PStr orig);
          corr_authors = authors_to_list (PStr corr)
      in if length orig_authors \<noteq> length corr_authors
         then [''AUTHORS: Different count ('' @ show_nat (length orig_authors) @ '' vs '' @
                 show_nat (length corr_authors) @ '')'']
         else
           let mismatches =
                 map quote_pair
                   (filter (\<lambda>(oa, ca). similarity oa ca < 3 / 4) (zip orig_authors corr_authors))
           in if mismatches \<noteq> [] \<and> length mismatches \<le> 3
              then [''AUTHORS: '' @ join ''; '' mismatches]
              else [])"

definition compare_with_corrected :: "(rat \<Rightarrow> string) \<Rightarrow> entry \<Rightarrow> fieldmap \<Rightarrow> string list" where
  "compare_with_corrected fmt original corrected =
     (case (map_of corrected ''author'', map_of original ''author'') of
        (Some ca, Some oa) \<Rightarrow> author_issues oa ca
      | _ \<Rightarrow> []) @
     (let orig_venue =
            (if get_or original ''booktitle'' [] \<noteq> [] then get_or original ''booktitle'' []
             else if get_or original ''journal'' [] \<noteq> [] then get_or original ''journal'' []
             else []);
          corr_venue = get_or corrected ''venue'' []
      in if orig_venue \<noteq> [] \<and> corr_venue \<noteq> [] \<and> similarity orig_venue corr_venue < 6 / 10
         then [''VENUE: '' @ [CHR 0x27] @ orig_venue @ [CHR 0x27] @ '' vs '' @
                 [CHR 0x27] @ corr_venue @ [CHR 0x27]]
         else []) @
     (let orig_year = get_or original ''year'' [];
          corr_year = get_or corrected ''year'' []
      in if orig_year \<noteq> [] \<and> corr_year \<noteq> [] \<and> orig_year \<noteq> corr_year
         then [''YEAR: '' @ orig_year @ '' vs '' @ corr_year]
         else []) @
     (case (map_of original ''title'', map_of corrected ''title'') of
        (Some ot, Some ct) \<Rightarrow>
          if similarity ot ct < 85 / 100
          then [''TITLE: Low similarity ('' @ fmt (similarity ot ct) @ '')'']
          else []
      | _ \<Rightarrow> [])"

section \<open>Validation sources\<close>

definition DEFAULT_ORDER :: "string list" where
  "DEFAULT_ORDER = [''dblp'', ''scholar'', ''semantic'']"

definition truthy_get :: "entry \<Rightarrow> string \<Rightarrow> bool" where
  "truthy_get e k = (case map_of e k of None \<Rightarrow> False | Some v \<Rightarrow> v \<noteq> [])"

record ('r, 'w) validation_source =
  should_attempt :: "entry \<Rightarrow> bool \<times> string"
  search_by_doi :: "string \<Rightarrow> 'w \<Rightarrow> 'r option \<times> 'w"
  search_by_title :: "string \<Rightarrow> 'w \<Rightarrow> 'r option \<times> 'w"
  extract_bibtex_fields :: "'r \<Rightarrow> fieldmap"

fun contains :: "string \<Rightarrow> string \<Rightarrow> bool" where
  "contains pat [] = (pat = [])"
| "contains pat (c # cs) = (take (length pat) (c # cs) = pat \<or> contains pat cs)"

definition skip_patterns :: "string list" where
  "skip_patterns =
     [''github.com'', ''github issue'', ''pull request'', ''documentation'', ''readme'',
      ''security policy'', ''vulnerability disclosure'', ''nasa.gov'', ''esa.int'', ''manual'',
      ''guide'', ''tutorial'', ''blog'', ''website'', ''webpage'']"

definition dblp_should_attempt :: "entry \<Rightarrow> bool \<times> string" where
  "dblp_should_attempt e =
     (let entry_type = lower (get_or e ''ENTRYTYPE'' []);
          title = lower (get_or e ''title'' [])
      in case filter (\<lambda>pattern. contains pattern title) skip_patterns of
           pattern # _ \<Rightarrow> (False, ''title contains '' @ [CHR 0x27] @ pattern @ [CHR 0x27])
         | [] \<Rightarrow>
             if entry_type = ''online'' \<and> \<not> truthy_get e ''doi''
             then (False, ''online entry without DOI'')
             else if entry_type \<in> set [''techreport'', ''misc'', ''manual''] \<and> \<not> truthy_get e ''doi''
             then (False, entry_type @ '' without DOI'')
             else (True, ''ok''))"

definition scholar_should_attempt :: "entry \<Rightarrow> bool \<times> string" where
  "scholar_should_attempt e =
     (if \<not> truthy_get e ''title'' then (False, ''missing title'') else (True, ''ok''))"

definition semantic_should_attempt :: "entry \<Rightarrow> bool \<times> string" where
  "semantic_should_attempt e =
     (if \<not> truthy_get e ''doi'' \<and> \<not> truthy_get e ''title''
      then (False, ''missing doi and title'') else (True, ''ok''))"

definition scholar_search_by_doi :: "string \<Rightarrow> 'w \<Rightarrow> 'r option \<times> 'w" where
  "scholar_search_by_doi doi w = (None, w)"

text \<open>
  \<open>ScholarSource.extract_bibtex_fields\<close>. A Scholar result is a dictionary that may hold a
  dictionary under the key \<open>bib\<close>; the model keeps that inner dictionary, if there is one,
  with its values as strings.
\<close>

definition scholar_extract_bibtex_fields :: "(string \<times> string) list option \<Rightarrow> fieldmap" where
  "scholar_extract_bibtex_fields result =
     (case result of
        None \<Rightarrow> []
      | Some bib \<Rightarrow>
          (case map_of bib ''title'' of None \<Rightarrow> [] | Some v \<Rightarrow> [(''title'', v)]) @
          (case map_of bib ''author'' of None \<Rightarrow> [] | Some v \<Rightarrow> [(''author'', v)]) @
          (case map_of bib ''pub_year'' of None \<Rightarrow> [] | Some v \<Rightarrow> [(''year'', v)]) @
          (case map_of bib ''venue'' of None \<Rightarrow> [] | Some v \<Rightarrow> [(''venue'', v)]))"

definition ScholarSource ::
  "(string \<Rightarrow> 'w \<Rightarrow> (string \<times> string) list option option \<times> 'w) \<Rightarrow>
     ((string \<times> string) list option, 'w) validation_source" where
  "ScholarSource search_pubs =
     \<lparr>should_attempt = scholar_should_attempt,
      search_by_doi = scholar_search_by_doi,
      search_by_title = search_pubs,
      extract_bibtex_fields = scholar_extract_bibtex_fields\<rparr>"

section \<open>Validation of one entry\<close>

datatype call = SearchByDoi string string | SearchByTitle string string

record 'w io =
  calls :: "call list"
  world :: 'w

record 'r source_match =
  match_search_method :: "string option"
  source_data :: 'r
  match_corrected_fields :: fieldmap

record 'r validation_result =
  result_id :: string
  result_title :: string
  status :: string
  issues :: "string list"
  corrected_fields :: fieldmap
  search_method :: "string option"
  matches :: "(string \<times> 'r source_match) list"
  attempts :: "(string \<times> bool \<times> string) list"

definition call_doi ::
  "string \<Rightarrow> ('r, 'w) validation_source \<Rightarrow> string \<Rightarrow> 'w io \<Rightarrow> 'r option \<times> 'w io" where
  "call_doi source_name source doi st =
     (case search_by_doi source doi (world st) of
        (found, w) \<Rightarrow> (found, \<lparr>calls = calls st @ [SearchByDoi source_name doi], world = w\<rparr>))"

definition call_title ::
  "string \<Rightarrow> ('r, 'w) validation_source \<Rightarrow> string \<Rightarrow> 'w io \<Rightarrow> 'r option \<times> 'w io" where
  "call_title source_name source title st =
     (case search_by_title source title (world st) of
        (found, w) \<Rightarrow> (found, \<lparr>calls = calls st @ [SearchByTitle source_name title], world = w\<rparr>))"

definition doi_step ::
  "string \<Rightarrow> ('r, 'w) validation_source \<Rightarrow> entry \<Rightarrow> 'w io \<Rightarrow> ('r option \<times> string option) \<times> 'w io" where
  "doi_step source_name source e st =
     (if truthy_get e ''doi''
      then (case call_doi source_name source (get_or e ''doi'' []) st of
              (found, st') \<Rightarrow>
                ((found, if found \<noteq> None then Some (source_name @ '':DOI'') else None), st'))
      else ((None, None), st))"

definition title_step ::
  "string \<Rightarrow> ('r, 'w) validation_source \<Rightarrow> entry \<Rightarrow> ('r option \<times> string option) \<times> 'w io \<Rightarrow>
     ('r option \<times> string option) \<times> 'w io" where
  "title_step source_name source e s =
     (case s of
        ((found, method), st) \<Rightarrow>
          if found = None \<and> truthy_get e ''title''
          then (case call_title source_name source (get_or e ''title'' []) st of
                  (found', st') \<Rightarrow>
                    ((found', if found' \<noteq> None then Some (source_name @ '':Title'') else method), st'))
          else ((found, method), st))"

definition search_source ::
  "string \<Rightarrow> ('r, 'w) validation_source \<Rightarrow> entry \<Rightarrow> 'w io \<Rightarrow> 'r source_match option \<times> 'w io" where
  "search_source source_name source e st =
     (case title_step source_name source e (doi_step source_name source e st) of
        ((found, method), st') \<Rightarrow>
          (case found of
             None \<Rightarrow> (None, st')
           | Some r \<Rightarrow>
               (Some \<lparr>match_search_method = method, source_data = r,
                      match_corrected_fields = extract_bibtex_fields source r\<rparr>, st')))"

fun source_loop ::
  "(string \<rightharpoonup> ('r, 'w) validation_source) \<Rightarrow> entry \<Rightarrow> string list \<Rightarrow>
     'r validation_result \<times> 'w io \<Rightarrow> 'r validation_result \<times> 'w io" where
  "source_loop sources e [] (result, st) = (result, st)"
| "source_loop sources e (source_name # rest) (result, st) =
     (case sources source_name of
        None \<Rightarrow> source_loop sources e rest (result, st)
      | Some source \<Rightarrow>
          (case should_attempt source e of
             (can_try, why) \<Rightarrow>
               let result1 = result\<lparr>attempts := AList.update source_name (can_try, why) (attempts result)\<rparr>
               in if \<not> can_try then source_loop sources e rest (result1, st)
                  else (case search_source source_name source e st of
                          (None, st') \<Rightarrow> source_loop sources e rest (result1, st')
                        | (Some m, st') \<Rightarrow>
                            source_loop sources e rest
                              (result1\<lparr>matches := AList.update source_name m (matches result1)\<rparr>, st'))))"

fun choose_corrected :: "string list \<Rightarrow> 'r validation_result \<Rightarrow> 'r validation_result" where
  "choose_corrected [] result = result"
| "choose_corrected (preferred # rest) result =
     (case map_of (matches result) preferred of
        Some m \<Rightarrow>
          result\<lparr>corrected_fields := match_corrected_fields m,
                 search_method := match_search_method m\<rparr>
      | None \<Rightarrow> choose_corrected rest result)"

definition upper_chr :: "char \<Rightarrow> char" where
  "upper_chr c =
     (let n = (of_char c :: nat) in if 97 \<le> n \<and> n \<le> 122 then char_of (n - 32) else c)"

definition upper :: "string \<Rightarrow> string" where
  "upper s = map upper_chr s"

fun dict_fromkeys :: "'a list \<Rightarrow> 'a list \<Rightarrow> 'a list" where
  "dict_fromkeys seen [] = seen"
| "dict_fromkeys seen (x # xs) =
     (if x \<in> set seen then dict_fromkeys seen xs else dict_fromkeys (seen @ [x]) xs)"

definition source_issues ::
  "(rat \<Rightarrow> string) \<Rightarrow> entry \<Rightarrow> string \<times> 'r source_match \<Rightarrow> string list" where
  "source_issues fmt e p =
     map (\<lambda>i. upper (fst p) @ '': '' @ i)
       (compare_with_corrected fmt e (match_corrected_fields (snd p)))"

definition initial_result :: "entry \<Rightarrow> 'r validation_result" where
  "initial_result e =
     \<lparr>result_id = get_or e ''ID'' ''unknown'',
      result_title = get_or e ''title'' [],
      status = ''unknown'',
      issues = [],
      corrected_fields = [],
      search_method = None,
      matches = [],
      attempts = []\<rparr>"

definition validate_entry ::
  "(string \<rightharpoonup> ('r, 'w) validation_source) \<Rightarrow> (rat \<Rightarrow> string) \<Rightarrow> entry \<Rightarrow> 'w io \<Rightarrow>
     'r validation_result \<times> 'w io" where
  "validate_entry sources fmt e st =
     (case source_loop sources e DEFAULT_ORDER (initial_result e, st) of
        (result, st') \<Rightarrow>
          if matches result = []
          then (result\<lparr>status := ''not_found'',
                       issues := issues result @ [''Entry not found in any source'']\<rparr>, st')
          else
            let result1 = choose_corrected DEFAULT_ORDER result;
                found_issues =
                  dict_fromkeys [] (concat (map (source_issues fmt e) (matches result1)))
            in (result1\<lparr>issues := found_issues,
                         status := (if found_issues = [] then ''validated'' else ''mismatch'')\<rparr>, st'))"

section \<open>Batch validation\<close>

record 'r batch_results =
  validated :: "'r validation_result list"
  mismatches :: "'r validation_result list"
  not_found :: "'r validation_result list"

definition bucket :: "'r validation_result \<Rightarrow> 'r batch_results \<Rightarrow> 'r batch_results" where
  "bucket result results =
     (if status result = ''validated''
      then results\<lparr>validated := validated results @ [result]\<rparr>
      else if status result = ''mismatch''
      then results\<lparr>mismatches := mismatches results @ [result]\<rparr>
      else if status result = ''not_found''
      then results\<lparr>not_found := not_found results @ [result]\<rparr>
      else results)"

fun validate_loop ::
  "(string \<rightharpoonup> ('r, 'w) validation_source) \<Rightarrow> (rat \<Rightarrow> string) \<Rightarrow> entry list \<Rightarrow>
     'r batch_results \<times> 'w io \<Rightarrow> 'r batch_results \<times> 'w io" where
  "validate_loop sources fmt [] (results, st) = (results, st)"
| "validate_loop sources fmt (e # es) (results, st) =
     (case validate_entry sources fmt e st of
        (result, st') \<Rightarrow> validate_loop sources fmt es (bucket result results, st'))"

definition validate_all ::
  "(string \<rightharpoonup> ('r, 'w) validation_source) \<Rightarrow> (rat \<Rightarrow> string) \<Rightarrow> entry list \<Rightarrow>
     'r batch_results \<times> 'w io \<Rightarrow> 'r batch_results \<times> 'w io" where
  "validate_all sources fmt entries s =
     (if entries = [] then s else validate_loop sources fmt entries s)"

definition empty_results :: "'r batch_results" where
  "empty_results = \<lparr>validated = [], mismatches = [], not_found = []\<rparr>"

section \<open>Applying corrections\<close>

type_synonym heap = "entry list"

definition deepcopy :: "nat \<Rightarrow> heap \<Rightarrow> nat \<times> heap" where
  "deepcopy a h = (length h, h @ [h ! a])"

definition setitem :: "nat \<Rightarrow> string \<Rightarrow> string \<Rightarrow> heap \<Rightarrow> heap" where
  "setitem a k v h = h[a := AList.update k v (h ! a)]"

definition find_result ::
  "'r batch_results \<Rightarrow> string option \<Rightarrow> 'r validation_result option" where
  "find_result results entry_id =
     find (\<lambda>result. Some (result_id result) = entry_id) (validated results @ mismatches results)"

definition write_field :: "nat \<Rightarrow> nat \<Rightarrow> string \<times> string \<Rightarrow> heap \<Rightarrow> heap" where
  "write_field entry entry_copy item h =
     (case item of
        (field, value) \<Rightarrow>
          if value \<noteq> [] then
            if field = ''venue'' then
              if map_of (h ! entry) ''ENTRYTYPE'' = Some ''article''
              then setitem entry_copy ''journal'' value h
              else setitem entry_copy ''booktitle'' value h
            else setitem entry_copy field value h
          else h)"

definition add_note :: "nat \<Rightarrow> string option \<Rightarrow> heap \<Rightarrow> heap" where
  "add_note entry_copy method h =
     (let source_info = (case method of None \<Rightarrow> ''None'' | Some m \<Rightarrow> m);
          existing_note = get_or (h ! entry_copy) ''note'' [];
          validation_note = ''Validated via '' @ source_info
      in setitem entry_copy ''note''
           (if existing_note \<noteq> [] then existing_note @ ''; '' @ validation_note
            else validation_note) h)"

fun apply_loop :: "'r batch_results \<Rightarrow> nat list \<Rightarrow> nat list \<times> heap \<Rightarrow> nat list \<times> heap" where
  "apply_loop results [] (updated_entries, h) = (updated_entries, h)"
| "apply_loop results (entry # rest) (updated_entries, h) =
     (case deepcopy entry h of
        (entry_copy, h1) \<Rightarrow>
          let h2 =
                (case find_result results (map_of (h1 ! entry) ''ID'') of
                   Some validation_result \<Rightarrow>
                     add_note entry_copy (search_method validation_result)
                       (fold (write_field entry entry_copy) (corrected_fields validation_result) h1)
                 | None \<Rightarrow> h1)
          in apply_loop results rest (updated_entries @ [entry_copy], h2))"

definition apply_corrections_to_entries ::
  "'r batch_results \<Rightarrow> nat list \<Rightarrow> heap \<Rightarrow> nat list \<times> heap" where
  "apply_corrections_to_entries results entries h = apply_loop results entries ([], h)"

text \<open>What one round of the loop over the sources does to the result and the state.\<close>

definition source_step ::
  "(string \<rightharpoonup> ('r, 'w) validation_source) \<Rightarrow> entry \<Rightarrow> string \<Rightarrow>
     'r validation_result \<times> 'w io \<Rightarrow> 'r validation_result \<times> 'w io" where
  "source_step sources e source_name s =
     (case s of
        (result, st) \<Rightarrow>
          (case sources source_name of
             None \<Rightarrow> (result, st)
           | Some source \<Rightarrow>
               let result1 = result\<lparr>attempts :=
                       AList.update source_name (should_attempt source e) (attempts result)\<rparr>
               in if \<not> fst (should_attempt source e) then (result1, st)
                  else (case search_source source_name source e st of
                          (None, st') \<Rightarrow> (result1, st')
                        | (Some m, st') \<Rightarrow>
                            (result1\<lparr>matches := AList.update source_name m (matches result1)\<rparr>, st'))))"

text \<open>
  The results of \<open>validate_entry\<close> on the entries in input order, each call starting in the
  state the previous one left.
\<close>

fun entry_results ::
  "(string \<rightharpoonup> ('r, 'w) validation_source) \<Rightarrow> (rat \<Rightarrow> string) \<Rightarrow> entry list \<Rightarrow> 'w io \<Rightarrow>
     'r validation_result list \<times> 'w io" where
  "entry_results sources fmt [] st = ([], st)"
| "entry_results sources fmt (e # es) st =
     (case validate_entry sources fmt e st of
        (result, st') \<Rightarrow>
          (case entry_results sources fmt es st' of
             (results, st'') \<Rightarrow> (result # results, st'')))"

text \<open>
  What the loop body of \<open>apply_corrections_to_entries\<close> computes for one entry, as a function
  of the entry's content alone: the content of the copy after the writes.
\<close>

definition write_value :: "entry \<Rightarrow> string \<times> string \<Rightarrow> entry \<Rightarrow> entry" where
  "write_value original item copy =
     (case item of
        (field, value) \<Rightarrow>
          if value \<noteq> [] then
            if field = ''venue'' then
              if map_of original ''ENTRYTYPE'' = Some ''article''
              then AList.update ''journal'' value copy
              else AList.update ''booktitle'' value copy
            else AList.update field value copy
          else copy)"

definition note_value :: "string option \<Rightarrow> entry \<Rightarrow> string" where
  "note_value method copy =
     (if get_or copy ''note'' [] \<noteq> []
      then get_or copy ''note'' [] @ ''; '' @ ''Validated via '' @ (case method of None \<Rightarrow> ''None'' | Some m \<Rightarrow> m)
      else ''Validated via '' @ (case method of None \<Rightarrow> ''None'' | Some m \<Rightarrow> m))"

definition corrected_entry :: "'r batch_results \<Rightarrow> entry \<Rightarrow> entry" where
  "corrected_entry results e =
     (case find_result results (map_of e ''ID'') of
        None \<Rightarrow> e
      | Some r \<Rightarrow>
          (let copy = fold (write_value e) (corrected_fields r) e
           in AList.update ''note'' (note_value (search_method r) copy) copy))"

definition is_author_issue :: "string \<Rightarrow> bool" where
  "is_author_issue i = (take 8 i = ''AUTHORS:'')"

section \<open>Example inputs\<close>

text \<open>
  Concrete entries, sources and results on which the theorems are instantiated. A provider
  result is the optional dictionary of a Scholar result; the world counts the queries
  answered so far.
\<close>

definition ex_entry :: entry where
  "ex_entry =
     [(''ID'', ''k1''), (''ENTRYTYPE'', ''article''), (''title'', ''Deep Learning''),
      (''doi'', ''10.1/x''), (''year'', ''2020'')]"

definition ex_entry2 :: entry where
  "ex_entry2 = [(''ID'', ''k2''), (''ENTRYTYPE'', ''misc'')]"

definition ex_extract :: "(string \<times> string) list option \<Rightarrow> fieldmap" where
  "ex_extract result = (case result of None \<Rightarrow> [] | Some fs \<Rightarrow> fs)"

definition ex_dblp :: "((string \<times> string) list option, nat) validation_source" where
  "ex_dblp =
     \<lparr>should_attempt = dblp_should_attempt,
      search_by_doi = (\<lambda>doi w. (None, Suc w)),
      search_by_title = (\<lambda>title w. (Some (Some [(''title'', title)]), Suc w)),
      extract_bibtex_fields = ex_extract\<rparr>"

definition ex_semantic :: "((string \<times> string) list option, nat) validation_source" where
  "ex_semantic =
     \<lparr>should_attempt = semantic_should_attempt,
      search_by_doi =
        (\<lambda>doi w. (Some (Some [(''title'', ''Deep Learning''), (''author'', ''A Smith''),
                                (''year'', ''2021''), (''venue'', ''NeurIPS''), (''doi'', doi)]),
                    Suc w)),
      search_by_title = (\<lambda>title w. (None, Suc w)),
      extract_bibtex_fields = ex_extract\<rparr>"

definition ex_scholar :: "((string \<times> string) list option, nat) validation_source" where
  "ex_scholar = ScholarSource (\<lambda>title w. (Some None, Suc w))"

definition ex_silent :: "((string \<times> string) list option, nat) validation_source" where
  "ex_silent =
     \<lparr>should_attempt = (\<lambda>e. (True, ''default'')),
      search_by_doi = (\<lambda>doi w. (None, Suc w)),
      search_by_title = (\<lambda>title w. (None, Suc w)),
      extract_bibtex_fields = ex_extract\<rparr>"

definition ex_fmt :: "rat \<Rightarrow> string" where
  "ex_fmt r = ''?''"

definition ex_io :: "nat io" where
  "ex_io = \<lparr>calls = [], world = 0\<rparr>"

definition ex_results :: "(string \<times> string) list option batch_results" where
  "ex_results =
     \<lparr>validated = [],
      mismatches =
        [\<lparr>result_id = ''k1'', result_title = ''Deep Learning'', status = ''mismatch'',
          issues = [''SEMANTIC: YEAR: 2020 vs 2021''],
          corrected_fields =
            [(''title'', ''Deep Learning''), (''author'', ''A Smith''), (''year'', ''2021''),
             (''venue'', ''NeurIPS''), (''doi'', [])],
          search_method = Some ''semantic:DOI'', matches = [], attempts = []\<rparr>],
      not_found = []\<rparr>"

section \<open>Properties of the string functions\<close>

lemma of_char_lower_chr:
  "(of_char (lower_chr c) :: nat) =
     (let n = (of_char c :: nat) in
        if (65 \<le> n \<and> n \<le> 90) \<or> (192 \<le> n \<and> n \<le> 222 \<and> n \<noteq> 215) then n + 32 else n)"
proof -
  have "(n::nat) \<le> 222 \<Longrightarrow> (n + 32) mod 256 = n + 32" for n by simp
  then show ?thesis
    by (auto simp: lower_chr_def Let_def)
qed

lemma lower_chr_idem: "lower_chr (lower_chr c) = lower_chr c"
proof -
  have "(of_char (lower_chr (lower_chr c)) :: nat) = of_char (lower_chr c)"
    by (simp add: of_char_lower_chr Let_def)
  then show ?thesis by (simp only: of_char_eq_iff)
qed

lemma is_space_chr_space: "is_space_chr (CHR '' '')"
  by (simp add: is_space_chr_def)

lemma lower_chr_space: "lower_chr (CHR '' '') = CHR '' ''"
  by (simp add: lower_chr_def)

lemma word_chr_plain:
  assumes "is_word_chr c"
  shows "c \<noteq> CHR 0x5C" and "\<not> is_brace c" and "\<not> is_space_chr c"
  using assms
  by (auto simp: is_word_chr_def is_alnum_chr_def is_brace_def is_space_chr_def Let_def)

lemma set_join: "set (join sep ts) \<subseteq> set sep \<union> \<Union> (set ` set ts)"
  by (induction sep ts rule: join.induct) auto

lemma split_ws_tokens:
  "\<forall>t \<in> set (split_ws s). t \<noteq> [] \<and> (\<forall>c \<in> set t. \<not> is_space_chr c \<and> c \<in> set s)"
proof (induction s rule: split_ws.induct)
  case (1 s)
  define s' where "s' = dropWhile is_space_chr s"
  show ?case
  proof (cases "s' = []")
    case True
    then show ?thesis by (subst split_ws.simps) (simp add: s'_def)
  next
    case False
    define t where "t = takeWhile (\<lambda>c. \<not> is_space_chr c) s'"
    define r where "r = dropWhile (\<lambda>c. \<not> is_space_chr c) s'"
    have eq: "split_ws s = t # split_ws r"
      using False by (subst split_ws.simps) (simp add: s'_def t_def r_def Let_def)
    have hd: "\<not> is_space_chr (hd s')"
      using False unfolding s'_def by (rule hd_dropWhile)
    then have "t \<noteq> []"
      using False by (cases s') (auto simp: t_def)
    moreover have "\<forall>c \<in> set t. \<not> is_space_chr c \<and> c \<in> set s"
    proof
      fix c assume "c \<in> set t"
      then have "\<not> is_space_chr c" and "c \<in> set s'"
        unfolding t_def by (auto dest: set_takeWhileD)
      then show "\<not> is_space_chr c \<and> c \<in> set s"
        unfolding s'_def by (auto dest: set_dropWhileD)
    qed
    moreover have "\<forall>u \<in> set (split_ws r). u \<noteq> [] \<and> (\<forall>c \<in> set u. \<not> is_space_chr c \<and> c \<in> set s)"
    proof -
      have ih: "\<forall>u \<in> set (split_ws r). u \<noteq> [] \<and> (\<forall>c \<in> set u. \<not> is_space_chr c \<and> c \<in> set r)"
        unfolding r_def by (rule "1.IH" [OF s'_def False])
      have "set r \<subseteq> set s"
        unfolding r_def s'_def by (auto dest: set_dropWhileD)
      with ih show ?thesis by blast
    qed
    ultimately show ?thesis by (simp add: eq)
  qed
qed

lemma split_ws_Nil: "split_ws [] = []"
  by (subst split_ws.simps) simp

lemma split_ws_skip: "is_space_chr c \<Longrightarrow> split_ws (c # s) = split_ws s"
  by (subst split_ws.simps, subst (2) split_ws.simps) simp

lemma split_ws_token_append:
  assumes "t \<noteq> []" and "\<forall>c \<in> set t. \<not> is_space_chr c"
    and "r = [] \<or> is_space_chr (hd r)"
  shows "split_ws (t @ r) = t # split_ws r"
proof -
  from assms(1,2) have d: "dropWhile is_space_chr (t @ r) = t @ r"
    by (cases t) auto
  have tk: "takeWhile (\<lambda>c. \<not> is_space_chr c) (t @ r) = t"
    using assms(2,3) by (cases r) (auto simp: takeWhile_append)
  have dr: "dropWhile (\<lambda>c. \<not> is_space_chr c) (t @ r) = r"
    using assms(2,3) by (cases r) (auto simp: dropWhile_append)
  show ?thesis
    using assms(1) by (subst split_ws.simps) (simp add: d tk dr Let_def)
qed

lemma split_ws_join:
  assumes "\<forall>t \<in> set ts. t \<noteq> [] \<and> (\<forall>c \<in> set t. \<not> is_space_chr c)"
  shows "split_ws (join '' '' ts) = ts"
  using assms
proof (induction "'' ''" ts rule: join.induct)
  case 1
  show ?case by (simp add: split_ws_Nil)
next
  case (2 x)
  then show ?case
    using split_ws_token_append [of x "[]"] by (simp add: split_ws_Nil)
next
  case (3 x y ys)
  have "split_ws (x @ '' '' @ join '' '' (y # ys)) = x # split_ws ('' '' @ join '' '' (y # ys))"
    using 3(2) by (intro split_ws_token_append) (auto simp: is_space_chr_space)
  also have "split_ws ('' '' @ join '' '' (y # ys)) = split_ws (join '' '' (y # ys))"
    by (simp add: split_ws_skip is_space_chr_space)
  also have "\<dots> = y # ys"
    using 3 by simp
  finally show ?case by simp
qed

lemma strip_latex_id: "CHR 0x5C \<notin> set s \<Longrightarrow> strip_latex s = s"
  by (induction s) (auto simp: match_latex_def)

lemma normalize_tokens:
  "\<exists>ts. normalize_str s = join '' '' ts \<and> (\<forall>t \<in> set ts. norm_word t)"
proof (cases "s = []")
  case True
  then have "normalize_str s = join '' '' []" by (simp add: normalize_str_def)
  then show ?thesis by fastforce
next
  case False
  define x where "x = map clean_chr (lower (filter (\<lambda>c. \<not> is_brace c) (strip_latex s)))"
  have n: "normalize_str s = join '' '' (split_ws x)"
    using False by (simp add: normalize_str_def x_def)
  have "norm_word t" if "t \<in> set (split_ws x)" for t
  proof -
    from that split_ws_tokens [of x]
    have ne: "t \<noteq> []" and cs: "\<forall>c \<in> set t. \<not> is_space_chr c \<and> c \<in> set x" by auto
    have "is_word_chr c \<and> lower_chr c = c" if "c \<in> set t" for c
    proof -
      from that cs have nsp: "\<not> is_space_chr c" and "c \<in> set x" by auto
      then obtain d where c: "c = clean_chr (lower_chr d)"
        by (auto simp: x_def lower_def)
      with nsp have "is_word_chr (lower_chr d)" and "c = lower_chr d"
        by (auto simp: clean_chr_def is_space_chr_space split: if_splits)
      then show ?thesis by (simp add: lower_chr_idem)
    qed
    with ne show ?thesis by (simp add: norm_word_def)
  qed
  with n show ?thesis by blast
qed

lemma normalize_join:
  assumes "\<forall>t \<in> set ts. norm_word t"
  shows "normalize_str (join '' '' ts) = join '' '' ts"
proof (cases "join '' '' ts = []")
  case True
  then show ?thesis by (simp add: normalize_str_def)
next
  case False
  define out where "out = join '' '' ts"
  have chars: "c = CHR '' '' \<or> (is_word_chr c \<and> lower_chr c = c)" if "c \<in> set out" for c
  proof -
    from that set_join [of "'' ''" ts] have "c \<in> set '' '' \<or> (\<exists>t \<in> set ts. c \<in> set t)"
      unfolding out_def by blast
    with assms show ?thesis by (auto simp: norm_word_def)
  qed
  have 1: "strip_latex out = out"
  proof (rule strip_latex_id)
    show "CHR 0x5C \<notin> set out"
    proof
      assume "CHR 0x5C \<in> set out"
      from chars [OF this] show False
        by (simp add: is_word_chr_def is_alnum_chr_def)
    qed
  qed
  have 2: "filter (\<lambda>c. \<not> is_brace c) out = out"
  proof -
    have "\<not> is_brace c" if "c \<in> set out" for c
      using chars [OF that] word_chr_plain(2) [of c] by (auto simp: is_brace_def)
    then show ?thesis by (simp add: filter_id_conv)
  qed
  have 3: "lower out = out"
    unfolding lower_def
  proof (rule map_idI)
    fix c assume "c \<in> set out"
    from chars [OF this] show "lower_chr c = c"
      using lower_chr_space by auto
  qed
  have 4: "map clean_chr out = out"
  proof (rule map_idI)
    fix c assume "c \<in> set out"
    from chars [OF this] show "clean_chr c = c"
      by (auto simp: clean_chr_def)
  qed
  have 5: "split_ws out = ts"
    unfolding out_def
  proof (rule split_ws_join, rule ballI, rule conjI)
    fix t assume "t \<in> set ts"
    with assms have nw: "norm_word t" by blast
    then show "t \<noteq> []" by (simp add: norm_word_def)
    show "\<forall>c \<in> set t. \<not> is_space_chr c"
      using nw word_chr_plain(3) by (auto simp: norm_word_def)
  qed
  from False have ne: "out \<noteq> []"
    unfolding out_def .
  have "normalize_str out = join '' '' (split_ws (map clean_chr (lower (filter (\<lambda>c. \<not> is_brace c) (strip_latex out)))))"
    by (simp only: normalize_str_def ne if_False)
  also have "\<dots> = join '' '' ts"
    by (simp only: 1 2 3 4 5)
  finally show ?thesis by (simp only: out_def)
qed

lemma strip_latex_wrapper:
  assumes "cmd \<noteq> []" and "\<forall>c \<in> set cmd. is_ascii_letter c" and "CHR ''}'' \<notin> set inner"
  shows "strip_latex (CHR 0x5C # cmd @ CHR ''{'' # inner @ CHR ''}'' # rest) = inner @ strip_latex rest"
proof -
  have nl: "\<not> is_ascii_letter (CHR ''{'')"
    by (simp add: is_ascii_letter_def)
  have t1: "takeWhile is_ascii_letter (cmd @ CHR ''{'' # inner @ CHR ''}'' # rest) = cmd"
    using assms(2) nl by (simp add: takeWhile_append)
  have d1: "dropWhile is_ascii_letter (cmd @ CHR ''{'' # inner @ CHR ''}'' # rest)
              = CHR ''{'' # inner @ CHR ''}'' # rest"
    using assms(2) nl by (simp add: dropWhile_append)
  have t2: "takeWhile (\<lambda>x. x \<noteq> CHR ''}'') (inner @ CHR ''}'' # rest) = inner"
    using assms(3) by (simp add: takeWhile_append)
  have d2: "dropWhile (\<lambda>x. x \<noteq> CHR ''}'') (inner @ CHR ''}'' # rest) = CHR ''}'' # rest"
    using assms(3) by (simp add: dropWhile_append)
  have "match_latex (CHR 0x5C # cmd @ CHR ''{'' # inner @ CHR ''}'' # rest) = Some (inner, rest)"
    using assms(1) by (simp add: match_latex_def t1 d1 t2 d2)
  then show ?thesis by simp
qed


section \<open>Properties of the sequence matcher\<close>

lemma mt_sym: "mt s i j = mt s j i"
  unfolding mt_def by metis

lemma mt_diag: "mt s i j \<Longrightarrow> mt s i i"
  unfolding mt_def by blast

lemma lrun_sym: "lrun s i j = lrun s j i"
proof (induction i arbitrary: j)
  case 0
  show ?case
  proof (cases j)
    case 0
    then show ?thesis by simp
  next
    case (Suc j')
    then show ?thesis using mt_sym [of s 0 "Suc j'"] by simp
  qed
next
  case (Suc i)
  show ?case
  proof (cases j)
    case 0
    then show ?thesis using mt_sym [of s "Suc i" 0] by simp
  next
    case (Suc j')
    then show ?thesis using Suc.IH [of j'] mt_sym [of s "Suc i" "Suc j'"] by simp
  qed
qed

lemma lrun_diag: "lrun s i j \<le> lrun s i i"
proof (induction i arbitrary: j)
  case 0
  show ?case using mt_diag [of s 0 j] by simp
next
  case (Suc i)
  show ?case
  proof (cases "mt s (Suc i) j")
    case True
    then have d: "mt s (Suc i) (Suc i)" by (rule mt_diag)
    show ?thesis
    proof (cases j)
      case 0
      with True d show ?thesis by simp
    next
      case (Suc j')
      with True d Suc.IH [of j'] show ?thesis by simp
    qed
  next
    case False
    then show ?thesis by simp
  qed
qed

lemma chain_b_nonpop: "chain_b s x = (if nonpop s x then indices_of s x else [])"
  by (simp add: chain_b_def nonpop_def Let_def)

lemma set_indices_of: "set (indices_of s x) = {j. j < length s \<and> s ! j = x}"
  by (auto simp: indices_of_def)

lemma sorted_indices_of: "sorted_wrt (<) (indices_of s x)"
  unfolding indices_of_def by (rule sorted_wrt_filter) (simp add: sorted_wrt_upt)

lemma set_chain_b: "i < length s \<Longrightarrow> set (chain_b s (s ! i)) = {j. mt s i j}"
  by (auto simp: chain_b_nonpop set_indices_of mt_def)

lemma sorted_chain_b: "sorted_wrt (<) (chain_b s x)"
  by (simp add: chain_b_nonpop sorted_indices_of)

lemma row_step:
  assumes "rowinv s i j2len" and "mt s i j"
  shows "(if j = 0 then 0 else (case j2len (j - 1) of None \<Rightarrow> 0 | Some v \<Rightarrow> v)) + 1 = lrun s i j"
proof (cases j)
  case 0
  with assms(2) show ?thesis by (cases i) simp_all
next
  case (Suc j')
  have "val j2len j' = (case i of 0 \<Rightarrow> 0 | Suc i' \<Rightarrow> lrun s i' j')"
    using assms(1) by (simp add: rowinv_def)
  with Suc assms(2) show ?thesis by (cases i) (simp_all add: val_def)
qed

lemma inner_loop_diag:
  assumes "rowinv s i j2len"
    and "sorted_wrt (<) js" and "\<forall>j \<in> set js. mt s i j"
    and "bi = bj" and "i \<in> set js \<or> lrun s i i \<le> bs"
    and "\<forall>i' < i. \<forall>j. lrun s i' j \<le> bs"
    and "inner_loop i 0 (length s) j2len js (m, bi, bj, bs) = (m', bi', bj', bs')"
  shows "bi' = bj' \<and> bs \<le> bs' \<and> lrun s i i \<le> bs' \<and>
         (\<forall>j. m' j = (if j \<in> set js then Some (lrun s i j) else m j))"
  using assms(2-)
proof (induction js arbitrary: m bi bj bs)
  case Nil
  then show ?case by simp
next
  case (Cons j js)
  have mj: "mt s i j" using Cons.prems(2) by simp
  then have jn: "j < length s" by (simp add: mt_def)
  define k where "k = (if j = 0 then 0 else (case j2len (j - 1) of None \<Rightarrow> 0 | Some v \<Rightarrow> v)) + 1"
  have k: "k = lrun s i j" unfolding k_def by (rule row_step [OF assms(1) mj])
  have srt: "sorted_wrt (<) js" and gt: "\<forall>x \<in> set js. j < x"
    using Cons.prems(1) by simp_all
  have notin: "j \<notin> set js" using gt by auto
  have ms: "\<forall>x \<in> set js. mt s i x" using Cons.prems(2) by simp
  show ?case
  proof (cases "k > bs")
    case True
    have ji: "j = i"
    proof (rule ccontr)
      assume ne: "j \<noteq> i"
      show False
      proof (cases "j < i")
        case True
        with Cons.prems(5) have "lrun s j i \<le> bs" by blast
        then have "k \<le> bs" using k by (simp add: lrun_sym [of s i j])
        with \<open>k > bs\<close> show False by simp
      next
        case False
        with ne have "i < j" by simp
        with gt have "i \<notin> set (j # js)" by auto
        with Cons.prems(4) have "lrun s i i \<le> bs" by blast
        with lrun_diag [of s i j] k have "k \<le> bs" by simp
        with \<open>k > bs\<close> show False by simp
      qed
    qed
    have run: "inner_loop i 0 (length s) j2len js (m(j \<mapsto> k), i + 1 - k, j + 1 - k, k) = (m', bi', bj', bs')"
      using Cons.prems(6) jn True by (simp add: k_def Let_def)
    have "bi' = bj' \<and> k \<le> bs' \<and> lrun s i i \<le> bs' \<and>
          (\<forall>x. m' x = (if x \<in> set js then Some (lrun s i x) else (m(j \<mapsto> k)) x))"
    proof (rule Cons.IH [OF srt ms _ _ _ run])
      show "i + 1 - k = j + 1 - k" using ji by simp
      show "i \<in> set js \<or> lrun s i i \<le> k" using ji k by simp
      show "\<forall>i'<i. \<forall>j. lrun s i' j \<le> k" using Cons.prems(5) True by (meson le_trans less_imp_le)
    qed
    with True notin k show ?thesis by auto
  next
    case False
    have run: "inner_loop i 0 (length s) j2len js (m(j \<mapsto> k), bi, bj, bs) = (m', bi', bj', bs')"
      using Cons.prems(6) jn False by (simp add: k_def Let_def)
    have "bi' = bj' \<and> bs \<le> bs' \<and> lrun s i i \<le> bs' \<and>
          (\<forall>x. m' x = (if x \<in> set js then Some (lrun s i x) else (m(j \<mapsto> k)) x))"
    proof (rule Cons.IH [OF srt ms Cons.prems(3) _ Cons.prems(5) run])
      show "i \<in> set js \<or> lrun s i i \<le> bs"
        using Cons.prems(4) False k by auto
    qed
    with notin k show ?thesis by auto
  qed
qed

lemma outer_loop_diag:
  assumes "rowinv s i0 j2len" and "bi = bj" and "\<forall>i' < i0. \<forall>j. lrun s i' j \<le> bs"
    and "outer_loop s (chain_b s) 0 (length s) [i0..<length s] (j2len, bi, bj, bs) = (m', bi', bj', bs')"
  shows "bi' = bj'"
  using assms
proof (induction "length s - i0" arbitrary: i0 j2len bi bj bs)
  case 0
  then show ?case by simp
next
  case (Suc d)
  then have lt: "i0 < length s" by simp
  then have up: "[i0..<length s] = i0 # [Suc i0..<length s]" by (simp add: upt_conv_Cons)
  let ?js = "chain_b s (s ! i0)"
  obtain m1 b1 c1 s1 where
    il: "inner_loop i0 0 (length s) j2len ?js (Map.empty, bi, bj, bs) = (m1, b1, c1, s1)"
    by (metis prod_cases4)
  have mts: "\<forall>j \<in> set ?js. mt s i0 j" by (simp add: set_chain_b [OF lt])
  have start: "i0 \<in> set ?js \<or> lrun s i0 i0 \<le> bs"
  proof (cases "mt s i0 i0")
    case True
    then show ?thesis by (simp add: set_chain_b [OF lt])
  next
    case False
    then have "lrun s i0 i0 = 0" by (cases i0) simp_all
    then show ?thesis by simp
  qed
  from inner_loop_diag [OF Suc.prems(1) sorted_chain_b mts Suc.prems(2) start Suc.prems(3) il]
  have r: "b1 = c1" "bs \<le> s1" "lrun s i0 i0 \<le> s1"
    "\<forall>j. m1 j = (if j \<in> set ?js then Some (lrun s i0 j) else None)" by simp_all
  have row: "rowinv s (Suc i0) m1"
    unfolding rowinv_def
  proof
    fix j
    show "val m1 j = (case Suc i0 of 0 \<Rightarrow> 0 | Suc i' \<Rightarrow> lrun s i' j)"
    proof (cases "mt s i0 j")
      case True
      then show ?thesis using r(4) by (simp add: val_def set_chain_b [OF lt])
    next
      case False
      then have "lrun s i0 j = 0" by (cases i0) simp_all
      with False show ?thesis using r(4) by (simp add: val_def set_chain_b [OF lt])
    qed
  qed
  have prev: "\<forall>i' < Suc i0. \<forall>j. lrun s i' j \<le> s1"
  proof (intro allI impI)
    fix i' j assume "i' < Suc i0"
    show "lrun s i' j \<le> s1"
    proof (cases "i' = i0")
      case True
      with lrun_diag [of s i0 j] r(3) show ?thesis by simp
    next
      case False
      with \<open>i' < Suc i0\<close> have "i' < i0" by simp
      with Suc.prems(3) have "lrun s i' j \<le> bs" by blast
      with r(2) show ?thesis by simp
    qed
  qed
  have rest: "outer_loop s (chain_b s) 0 (length s) [Suc i0..<length s] (m1, b1, c1, s1) = (m', bi', bj', bs')"
    using Suc.prems(4) il by (simp add: up)
  have "d = length s - Suc i0" using Suc.hyps(2) by simp
  from Suc.hyps(1) [OF this row r(1) prev rest] show ?case .
qed

lemma extend_left_same: "extend_left s s 0 0 (b, b, k) = (0, 0, k + b)"
proof (induction b arbitrary: k)
  case 0
  show ?case by (subst extend_left.simps) simp
next
  case (Suc b)
  show ?case by (subst extend_left.simps) (simp add: Suc.IH)
qed

lemma extend_right_same: "extend_right s s n n (0, 0, k) = (0, 0, max k n)"
proof (induction "n - k" arbitrary: k)
  case 0
  then show ?case by (subst extend_right.simps) (simp add: max_def)
next
  case (Suc d)
  then have "d = n - (k + 1)" and "k < n" by simp_all
  with Suc.hyps(1) [of "k + 1"] show ?case
    by (subst extend_right.simps) (simp add: max_def)
qed

lemma find_longest_match_same:
  "find_longest_match s s (chain_b s) 0 (length s) 0 (length s) = (0, 0, length s)"
proof -
  obtain m0 i0 j0 k0 where
    ol: "outer_loop s (chain_b s) 0 (length s) [0..<length s] (Map.empty, 0, 0, 0) = (m0, i0, j0, k0)"
    by (metis prod_cases4)
  have "rowinv s 0 Map.empty" by (simp add: rowinv_def val_def)
  from outer_loop_diag [OF this _ _ ol] have "i0 = j0" by simp
  with ol have flm: "find_longest_match s s (chain_b s) 0 (length s) 0 (length s) = (0, 0, max (k0 + i0) (length s))"
    by (simp add: find_longest_match_def extend_left_same extend_right_same)
  show ?thesis
  proof (cases "length s = 0")
    case True
    with ol flm show ?thesis by simp
  next
    case False
    then have "max (k0 + i0) (length s) \<noteq> 0" by simp
    from find_longest_match_bounds [OF flm this] have "max (k0 + i0) (length s) \<le> length s" by simp
    then have "max (k0 + i0) (length s) = length s" by simp
    with flm show ?thesis by simp
  qed
qed

lemma get_matching_blocks_same:
  "get_matching_blocks s s =
     (if s = [] then [(0, 0, 0)] else [(0, 0, length s), (length s, length s, 0)])"
  by (simp add: get_matching_blocks_def find_longest_match_same)

lemma ratio_same: "ratio s s = 1"
  by (simp add: ratio_def get_matching_blocks_same calculate_ratio_def)


lemma search_source_doi_hit:
  assumes "truthy_get e ''doi''" and "search_by_doi source (get_or e ''doi'' []) (world st) = (Some r, w)"
  shows "search_source source_name source e st =
           (Some \<lparr>match_search_method = Some (source_name @ '':DOI''), source_data = r,
                  match_corrected_fields = extract_bibtex_fields source r\<rparr>,
            \<lparr>calls = calls st @ [SearchByDoi source_name (get_or e ''doi'' [])], world = w\<rparr>)"
  using assms by (simp add: search_source_def title_step_def doi_step_def call_doi_def)

lemma search_source_doi_miss_title:
  assumes "truthy_get e ''doi''" and "search_by_doi source (get_or e ''doi'' []) (world st) = (None, w)"
    and "truthy_get e ''title''" and "search_by_title source (get_or e ''title'' []) w = (found, w')"
  shows "search_source source_name source e st =
           (case found of
              None \<Rightarrow> None
            | Some r \<Rightarrow>
                Some \<lparr>match_search_method = Some (source_name @ '':Title''), source_data = r,
                       match_corrected_fields = extract_bibtex_fields source r\<rparr>,
            \<lparr>calls = calls st @ [SearchByDoi source_name (get_or e ''doi'' []),
                                  SearchByTitle source_name (get_or e ''title'' [])],
              world = w'\<rparr>)"
  using assms
  by (cases found)
     (simp_all add: search_source_def title_step_def doi_step_def call_doi_def call_title_def)

lemma search_source_doi_miss_no_title:
  assumes "truthy_get e ''doi''" and "search_by_doi source (get_or e ''doi'' []) (world st) = (None, w)"
    and "\<not> truthy_get e ''title''"
  shows "search_source source_name source e st =
           (None, \<lparr>calls = calls st @ [SearchByDoi source_name (get_or e ''doi'' [])], world = w\<rparr>)"
  using assms by (simp add: search_source_def title_step_def doi_step_def call_doi_def)

lemma search_source_title_only:
  assumes "\<not> truthy_get e ''doi''" and "truthy_get e ''title''"
    and "search_by_title source (get_or e ''title'' []) (world st) = (found, w')"
  shows "search_source source_name source e st =
           (case found of
              None \<Rightarrow> None
            | Some r \<Rightarrow>
                Some \<lparr>match_search_method = Some (source_name @ '':Title''), source_data = r,
                       match_corrected_fields = extract_bibtex_fields source r\<rparr>,
            \<lparr>calls = calls st @ [SearchByTitle source_name (get_or e ''title'' [])], world = w'\<rparr>)"
  using assms
  by (cases found)
     (simp_all add: search_source_def title_step_def doi_step_def call_title_def)

lemma search_source_nothing:
  assumes "\<not> truthy_get e ''doi''" and "\<not> truthy_get e ''title''"
  shows "search_source source_name source e st = (None, st)"
  using assms by (simp add: search_source_def title_step_def doi_step_def)

lemma source_loop_accepted:
  assumes "sources source_name = Some source" and "should_attempt source e = (True, why)"
  shows "source_loop sources e (source_name # rest) (result, st) =
           (case search_source source_name source e st of
              (m, st') \<Rightarrow>
                source_loop sources e rest
                  (result\<lparr>attempts := AList.update source_name (True, why) (attempts result),
                          matches := (case m of
                                        None \<Rightarrow> matches result
                                      | Some mm \<Rightarrow> AList.update source_name mm (matches result))\<rparr>,
                   st'))"
  using assms by (auto split: prod.splits option.splits)

lemma source_loop_step:
  "source_loop sources e (source_name # rest) s =
     source_loop sources e rest (source_step sources e source_name s)"
  by (cases s) (auto simp: source_step_def Let_def split: option.splits prod.splits)

lemma source_loop_fold: "source_loop sources e names s = fold (source_step sources e) names s"
proof (induction names arbitrary: s)
  case Nil
  show ?case by (cases s) simp
next
  case (Cons n names)
  show ?case by (simp only: source_loop_step Cons.IH fold_simps)
qed

lemma source_loop_invariant:
  assumes "P s" and "\<And>n s. n \<in> set names \<Longrightarrow> P s \<Longrightarrow> P (source_step sources e n s)"
  shows "P (source_loop sources e names s)"
  using assms
proof (induction names arbitrary: s)
  case Nil
  then show ?case by (cases s) simp
next
  case (Cons n names)
  have "P (source_step sources e n s)" using Cons.prems by simp
  then have "P (source_loop sources e names (source_step sources e n s))"
    using Cons.prems(2) by (intro Cons.IH) simp_all
  then show ?case by (simp only: source_loop_step)
qed

lemma source_step_fields:
  assumes "source_step sources e n (result, st) = (result', st')"
  shows "result_id result' = result_id result" and "result_title result' = result_title result"
    and "status result' = status result" and "issues result' = issues result"
    and "corrected_fields result' = corrected_fields result"
    and "search_method result' = search_method result"
  using assms
  by (auto simp: source_step_def Let_def split: option.splits prod.splits if_splits)

lemma source_step_matches:
  assumes "source_step sources e n (result, st) = (result', st')"
  shows "matches result' = matches result \<or>
         (\<exists>source m. sources n = Some source \<and> fst (should_attempt source e) \<and>
            search_source n source e st = (Some m, st') \<and>
            matches result' = AList.update n m (matches result))"
  using assms
  by (auto simp: source_step_def Let_def split: option.splits prod.splits if_splits)

lemma source_step_kept:
  "result_id (fst (source_step sources e n s)) = result_id (fst s)"
  "result_title (fst (source_step sources e n s)) = result_title (fst s)"
  "status (fst (source_step sources e n s)) = status (fst s)"
  "issues (fst (source_step sources e n s)) = issues (fst s)"
  "corrected_fields (fst (source_step sources e n s)) = corrected_fields (fst s)"
  "search_method (fst (source_step sources e n s)) = search_method (fst s)"
  by (cases s; simp add: source_step_def Let_def split: option.splits prod.splits)+

lemma source_step_no_search:
  assumes "\<not> truthy_get e ''doi''" and "\<not> truthy_get e ''title''"
  shows "matches (fst (source_step sources e n s)) = matches (fst s)"
    and "snd (source_step sources e n s) = snd s"
  using assms
  by (cases s; simp add: source_step_def Let_def search_source_nothing split: option.splits prod.splits)+

lemma search_source_match:
  assumes "search_source n source e st = (Some m, st')"
  shows "match_corrected_fields m = extract_bibtex_fields source (source_data m) \<and>
         (match_search_method m = Some (n @ '':DOI'') \<or> match_search_method m = Some (n @ '':Title''))"
  using assms
  by (auto simp: search_source_def title_step_def doi_step_def call_doi_def call_title_def
      split: prod.splits option.splits if_splits)

lemma search_source_scholar:
  assumes "search_source n (ScholarSource search_pubs) e st = (Some m, st')"
  shows "match_search_method m = Some (n @ '':Title'')"
  using assms
  by (auto simp: search_source_def title_step_def doi_step_def call_doi_def call_title_def
      ScholarSource_def scholar_search_by_doi_def
      split: prod.splits option.splits if_splits)

lemma search_source_no_results:
  assumes "\<forall>w. fst (search_by_doi source (get_or e ''doi'' []) w) = None \<and>
               fst (search_by_title source (get_or e ''title'' []) w) = None"
  shows "fst (search_source n source e st) = None"
proof -
  have d: "found = None" if "search_by_doi source (get_or e ''doi'' []) w = (found, w')" for found w w'
    using assms that by (metis fst_conv)
  have t: "found = None" if "search_by_title source (get_or e ''title'' []) w = (found, w')" for found w w'
    using assms that by (metis fst_conv)
  show ?thesis
    by (auto simp: search_source_def title_step_def doi_step_def call_doi_def call_title_def
        split: prod.splits option.splits if_splits dest: d t)
qed

lemma validate_entry_not_found:
  assumes "matches (fst (source_loop sources e DEFAULT_ORDER (initial_result e, st))) = []"
  shows "status (fst (validate_entry sources fmt e st)) = ''not_found''"
    and "issues (fst (validate_entry sources fmt e st)) = [''Entry not found in any source'']"
    and "snd (validate_entry sources fmt e st) = snd (source_loop sources e DEFAULT_ORDER (initial_result e, st))"
proof -
  obtain result st' where l: "source_loop sources e DEFAULT_ORDER (initial_result e, st) = (result, st')"
    by (cases "source_loop sources e DEFAULT_ORDER (initial_result e, st)")
  have "issues (fst (result, st')) = []"
    unfolding l [symmetric]
    by (rule source_loop_invariant) (simp_all add: initial_result_def source_step_kept)
  then have i: "issues result = []" by simp
  from assms l have m: "matches result = []" by simp
  show "status (fst (validate_entry sources fmt e st)) = ''not_found''"
    and "issues (fst (validate_entry sources fmt e st)) = [''Entry not found in any source'']"
    and "snd (validate_entry sources fmt e st) = snd (source_loop sources e DEFAULT_ORDER (initial_result e, st))"
    by (simp_all add: validate_entry_def l m i)
qed

lemma no_results_no_matches:
  assumes "\<forall>n source. sources n = Some source \<longrightarrow>
             (\<forall>w. fst (search_by_doi source (get_or e ''doi'' []) w) = None \<and>
                  fst (search_by_title source (get_or e ''title'' []) w) = None)"
  shows "matches (fst (source_loop sources e names (initial_result e, st))) = []"
proof (rule source_loop_invariant [where P = "\<lambda>s. matches (fst s) = []"])
  show "matches (fst (initial_result e, st)) = []" by (simp add: initial_result_def)
next
  fix n and s :: "'a validation_result \<times> 'b io"
  assume m: "matches (fst s) = []"
  obtain result st0 where s: "s = (result, st0)" by (cases s)
  obtain result' st1 where r: "source_step sources e n (result, st0) = (result', st1)"
    by (cases "source_step sources e n (result, st0)")
  from source_step_matches [OF r] have "matches result' = matches result"
  proof
    assume "matches result' = matches result"
    then show ?thesis .
  next
    assume "\<exists>source m. sources n = Some source \<and> fst (should_attempt source e) \<and>
            search_source n source e st0 = (Some m, st1) \<and>
            matches result' = AList.update n m (matches result)"
    then obtain source m where "sources n = Some source"
      and f: "search_source n source e st0 = (Some m, st1)" by blast
    with assms have "fst (search_source n source e st0) = None"
      by (intro search_source_no_results) blast
    with f show ?thesis by simp
  qed
  with m s r show "matches (fst (source_step sources e n s)) = []" by simp
qed

lemma no_doi_no_title_loop:
  assumes "\<not> truthy_get e ''doi''" and "\<not> truthy_get e ''title''"
  shows "matches (fst (source_loop sources e names (initial_result e, st))) = [] \<and>
         snd (source_loop sources e names (initial_result e, st)) = st"
proof (rule source_loop_invariant [where P = "\<lambda>s. matches (fst s) = [] \<and> snd s = st"])
  show "matches (fst (initial_result e, st)) = [] \<and> snd (initial_result e, st) = st"
    by (simp add: initial_result_def)
next
  fix n and s :: "'a validation_result \<times> 'b io"
  assume "matches (fst s) = [] \<and> snd s = st"
  then show "matches (fst (source_step sources e n s)) = [] \<and> snd (source_step sources e n s) = st"
    by (simp add: source_step_no_search [OF assms])
qed

lemma map_of_update_other: "k \<noteq> n \<Longrightarrow> map_of (AList.update n v al) k = map_of al k"
  by (simp add: update_conv')

lemma scholar_matches_by_title:
  assumes "sources ''scholar'' = Some (ScholarSource search_pubs)"
  shows "\<forall>m. map_of (matches (fst (source_loop sources e names (initial_result e, st)))) ''scholar'' = Some m \<longrightarrow>
             match_search_method m = Some ''scholar:Title''"
proof (rule source_loop_invariant
    [where P = "\<lambda>s. \<forall>m. map_of (matches (fst s)) ''scholar'' = Some m \<longrightarrow>
                        match_search_method m = Some ''scholar:Title''"])
  show "\<forall>m. map_of (matches (fst (initial_result e, st))) ''scholar'' = Some m \<longrightarrow>
            match_search_method m = Some ''scholar:Title''"
    by (simp add: initial_result_def)
next
  fix n and s :: "(string \<times> string) list option validation_result \<times> 'a io"
  assume inv: "\<forall>m. map_of (matches (fst s)) ''scholar'' = Some m \<longrightarrow>
                   match_search_method m = Some ''scholar:Title''"
  obtain result st0 where s: "s = (result, st0)" by (cases s)
  obtain result' st1 where r: "source_step sources e n (result, st0) = (result', st1)"
    by (cases "source_step sources e n (result, st0)")
  have "\<forall>m. map_of (matches result') ''scholar'' = Some m \<longrightarrow>
            match_search_method m = Some ''scholar:Title''"
    using source_step_matches [OF r]
  proof
    assume "matches result' = matches result"
    with inv s show ?thesis by simp
  next
    assume "\<exists>source m. sources n = Some source \<and> fst (should_attempt source e) \<and>
            search_source n source e st0 = (Some m, st1) \<and>
            matches result' = AList.update n m (matches result)"
    then obtain source m where src: "sources n = Some source"
      and f: "search_source n source e st0 = (Some m, st1)"
      and u: "matches result' = AList.update n m (matches result)" by blast
    show ?thesis
    proof (cases "n = ''scholar''")
      case True
      with src assms have "source = ScholarSource search_pubs" by simp
      with f True have "match_search_method m = Some ''scholar:Title''"
        using search_source_scholar [of "''scholar''" search_pubs e st0 m st1] by simp
      with u True show ?thesis by (simp add: update_conv')
    next
      case False
      then have "map_of (matches result') ''scholar'' = map_of (matches result) ''scholar''"
        using u by (simp add: update_conv')
      with inv s show ?thesis by simp
    qed
  qed
  with s r show "\<forall>m. map_of (matches (fst (source_step sources e n s))) ''scholar'' = Some m \<longrightarrow>
                     match_search_method m = Some ''scholar:Title''" by simp
qed

lemma validate_entry_matches:
  "matches (fst (validate_entry sources fmt e st)) =
     matches (fst (source_loop sources e DEFAULT_ORDER (initial_result e, st)))"
proof -
  have c: "matches (choose_corrected names result) = matches result" for names and result :: "'a validation_result"
    by (induction names) (auto split: option.splits)
  show ?thesis
    by (simp add: validate_entry_def Let_def c split: prod.splits)
qed

lemma matches_provenance:
  "\<forall>n m. map_of (matches (fst (source_loop sources e names (initial_result e, st)))) n = Some m \<longrightarrow>
      n \<in> set names \<and>
      (\<exists>source. sources n = Some source \<and>
         match_corrected_fields m = extract_bibtex_fields source (source_data m))"
proof (rule source_loop_invariant
    [where P = "\<lambda>s. \<forall>n m. map_of (matches (fst s)) n = Some m \<longrightarrow>
                  n \<in> set names \<and>
                  (\<exists>source. sources n = Some source \<and>
                     match_corrected_fields m = extract_bibtex_fields source (source_data m))"])
  show "\<forall>n m. map_of (matches (fst (initial_result e, st))) n = Some m \<longrightarrow>
      n \<in> set names \<and>
      (\<exists>source. sources n = Some source \<and>
         match_corrected_fields m = extract_bibtex_fields source (source_data m))"
    by (simp add: initial_result_def)
next
  fix k and s :: "'a validation_result \<times> 'b io"
  assume k: "k \<in> set names"
  assume inv: "\<forall>n m. map_of (matches (fst s)) n = Some m \<longrightarrow>
      n \<in> set names \<and>
      (\<exists>source. sources n = Some source \<and>
         match_corrected_fields m = extract_bibtex_fields source (source_data m))"
  obtain result st0 where s: "s = (result, st0)" by (cases s)
  obtain result' st1 where r: "source_step sources e k (result, st0) = (result', st1)"
    by (cases "source_step sources e k (result, st0)")
  have "\<forall>n m. map_of (matches result') n = Some m \<longrightarrow>
      n \<in> set names \<and>
      (\<exists>source. sources n = Some source \<and>
         match_corrected_fields m = extract_bibtex_fields source (source_data m))"
    using source_step_matches [OF r]
  proof
    assume "matches result' = matches result"
    with inv s show ?thesis by simp
  next
    assume "\<exists>source m. sources k = Some source \<and> fst (should_attempt source e) \<and>
            search_source k source e st0 = (Some m, st1) \<and>
            matches result' = AList.update k m (matches result)"
    then obtain source m where src: "sources k = Some source"
      and f: "search_source k source e st0 = (Some m, st1)"
      and u: "matches result' = AList.update k m (matches result)" by blast
    from search_source_match [OF f]
    have x: "match_corrected_fields m = extract_bibtex_fields source (source_data m)" by simp
    show ?thesis
    proof (intro allI impI)
      fix n m' assume g: "map_of (matches result') n = Some m'"
      show "n \<in> set names \<and>
            (\<exists>source. sources n = Some source \<and>
               match_corrected_fields m' = extract_bibtex_fields source (source_data m'))"
      proof (cases "n = k")
        case True
        with g u have "m' = m" by (simp add: update_conv')
        with True k src x show ?thesis by simp
      next
        case False
        with g u have "map_of (matches result) n = Some m'" by (simp add: update_conv')
        with inv s show ?thesis by simp
      qed
    qed
  qed
  with s r show "\<forall>n m. map_of (matches (fst (source_step sources e k s))) n = Some m \<longrightarrow>
      n \<in> set names \<and>
      (\<exists>source. sources n = Some source \<and>
         match_corrected_fields m = extract_bibtex_fields source (source_data m))" by simp
qed

lemma set_dict_fromkeys: "set (dict_fromkeys seen xs) = set seen \<union> set xs"
  by (induction seen xs rule: dict_fromkeys.induct) auto

lemma distinct_dict_fromkeys: "distinct seen \<Longrightarrow> distinct (dict_fromkeys seen xs)"
  by (induction seen xs rule: dict_fromkeys.induct) auto

lemma validate_entry_found:
  assumes "validate_entry sources fmt e st = (res, st')" and "matches res \<noteq> []"
  shows "res = (choose_corrected DEFAULT_ORDER (fst (source_loop sources e DEFAULT_ORDER (initial_result e, st))))
           \<lparr>issues := dict_fromkeys [] (concat (map (source_issues fmt e) (matches res))),
            status := (if dict_fromkeys [] (concat (map (source_issues fmt e) (matches res))) = []
                       then ''validated'' else ''mismatch'')\<rparr>"
proof -
  have c: "matches (choose_corrected names result) = matches result" for names and result :: "'a validation_result"
    by (induction names) (auto split: option.splits)
  from assms(2) have "matches (fst (source_loop sources e DEFAULT_ORDER (initial_result e, st))) \<noteq> []"
    using validate_entry_matches [of sources fmt e st] assms(1) by simp
  with assms(1) show ?thesis
    by (auto simp: validate_entry_def Let_def c split: prod.splits)
qed

lemma choose_corrected_kept:
  "matches (choose_corrected names result) = matches result"
  "result_id (choose_corrected names result) = result_id result"
  "result_title (choose_corrected names result) = result_title result"
  by (induction names; simp split: option.splits)+

lemma source_loop_kept:
  "result_id (fst (source_loop sources e names s)) = result_id (fst s) \<and>
   issues (fst (source_loop sources e names s)) = issues (fst s)"
  by (rule source_loop_invariant
        [where P = "\<lambda>x. result_id (fst x) = result_id (fst s) \<and> issues (fst x) = issues (fst s)"])
     (simp_all add: source_step_kept)

lemma validate_entry_status:
  assumes "validate_entry sources fmt e st = (res, st')"
  shows "status res \<in> {''validated'', ''mismatch'', ''not_found''}"
    and "(status res = ''not_found'') = (matches res = [])"
    and "(status res = ''validated'') = (issues res = [])"
    and "result_id res = get_or e ''ID'' ''unknown''"
proof -
  obtain result st1 where l: "source_loop sources e DEFAULT_ORDER (initial_result e, st) = (result, st1)"
    by (cases "source_loop sources e DEFAULT_ORDER (initial_result e, st)")
  have i: "result_id result = get_or e ''ID'' ''unknown''"
    using source_loop_kept [of sources e DEFAULT_ORDER "(initial_result e, st)"] l
    by (simp add: initial_result_def)
  show "status res \<in> {''validated'', ''mismatch'', ''not_found''}"
    and "(status res = ''not_found'') = (matches res = [])"
    and "(status res = ''validated'') = (issues res = [])"
    and "result_id res = get_or e ''ID'' ''unknown''"
    using assms i
    by (auto simp: validate_entry_def l Let_def choose_corrected_kept split: if_splits)
qed

lemma bucket_cases:
  "validated (bucket r b) = validated b @ (if status r = ''validated'' then [r] else [])"
  "mismatches (bucket r b) = mismatches b @ (if status r = ''mismatch'' then [r] else [])"
  "not_found (bucket r b) = not_found b @ (if status r = ''not_found'' then [r] else [])"
  by (simp_all add: bucket_def)

lemma validate_loop_buckets:
  assumes "validate_loop sources fmt entries (b, st) = (b', st')"
  shows "validated b' = validated b @ filter (\<lambda>r. status r = ''validated'') (fst (entry_results sources fmt entries st)) \<and>
         mismatches b' = mismatches b @ filter (\<lambda>r. status r = ''mismatch'') (fst (entry_results sources fmt entries st)) \<and>
         not_found b' = not_found b @ filter (\<lambda>r. status r = ''not_found'') (fst (entry_results sources fmt entries st)) \<and>
         st' = snd (entry_results sources fmt entries st)"
  using assms
proof (induction entries arbitrary: b st)
  case Nil
  then show ?case by simp
next
  case (Cons e es)
  obtain r st1 where v: "validate_entry sources fmt e st = (r, st1)"
    by (cases "validate_entry sources fmt e st")
  obtain rs st2 where er: "entry_results sources fmt es st1 = (rs, st2)"
    by (cases "entry_results sources fmt es st1")
  from Cons.prems v have "validate_loop sources fmt es (bucket r b, st1) = (b', st')" by simp
  from Cons.IH [OF this] er v show ?case
    by (simp add: bucket_cases)
qed

lemma entry_results_props:
  "length (fst (entry_results sources fmt entries st)) = length entries \<and>
   map result_id (fst (entry_results sources fmt entries st)) = map (\<lambda>e. get_or e ''ID'' ''unknown'') entries \<and>
   (\<forall>r \<in> set (fst (entry_results sources fmt entries st)).
      status r \<in> {''validated'', ''mismatch'', ''not_found''} \<and>
      (status r = ''not_found'') = (matches r = []) \<and>
      (status r = ''validated'') = (issues r = []))"
proof (induction entries arbitrary: st)
  case Nil
  show ?case by simp
next
  case (Cons e es)
  obtain r st1 where v: "validate_entry sources fmt e st = (r, st1)"
    by (cases "validate_entry sources fmt e st")
  obtain rs st2 where er: "entry_results sources fmt es st1 = (rs, st2)"
    by (cases "entry_results sources fmt es st1")
  have e: "fst (entry_results sources fmt (e # es) st) = r # rs"
    using v er by simp
  note ih = Cons.IH [of st1, unfolded er fst_conv]
  note h = validate_entry_status [OF v]
  have 1: "length (r # rs) = length (e # es)"
    using ih by simp
  have 2: "map result_id (r # rs) = map (\<lambda>e. get_or e ''ID'' ''unknown'') (e # es)"
    using ih h(4) by simp
  have 3: "\<forall>x \<in> set (r # rs).
      status x \<in> {''validated'', ''mismatch'', ''not_found''} \<and>
      (status x = ''not_found'') = (matches x = []) \<and>
      (status x = ''validated'') = (issues x = [])"
  proof
    fix x assume "x \<in> set (r # rs)"
    then consider "x = r" | "x \<in> set rs" by auto
    then show "status x \<in> {''validated'', ''mismatch'', ''not_found''} \<and>
      (status x = ''not_found'') = (matches x = []) \<and>
      (status x = ''validated'') = (issues x = [])"
    proof cases
      case 1
      with h(1,2,3) show ?thesis by blast
    next
      case 2
      with ih show ?thesis by blast
    qed
  qed
  show ?case
    unfolding e using 1 2 3 by (intro conjI)
qed

lemma partition_lengths:
  assumes "\<forall>r \<in> set rs. status r \<in> {''validated'', ''mismatch'', ''not_found''}"
  shows "length (filter (\<lambda>r. status r = ''validated'') rs) +
         length (filter (\<lambda>r. status r = ''mismatch'') rs) +
         length (filter (\<lambda>r. status r = ''not_found'') rs) = length rs"
  using assms by (induction rs) auto

lemma setitem_fresh: "setitem (length h) k v (h @ [c]) = h @ [AList.update k v c]"
  by (simp add: setitem_def)

lemma write_field_fresh:
  assumes "a < length h"
  shows "write_field a (length h) item (h @ [c]) = h @ [write_value (h ! a) item c]"
  using assms
  by (cases item) (simp add: write_field_def write_value_def setitem_fresh nth_append)

lemma fold_write_field_fresh:
  assumes "a < length h"
  shows "fold (write_field a (length h)) items (h @ [c]) = h @ [fold (write_value (h ! a)) items c]"
  by (induction items arbitrary: c) (simp_all add: write_field_fresh [OF assms])

lemma add_note_fresh:
  "add_note (length h) method (h @ [c]) = h @ [AList.update ''note'' (note_value method c) c]"
  by (simp add: add_note_def note_value_def Let_def setitem_fresh)

lemma apply_loop_fresh:
  assumes "\<forall>a \<in> set entries. a < length h"
  shows "apply_loop results entries (updated, h) =
           (updated @ [length h..<length h + length entries],
            h @ map (\<lambda>a. corrected_entry results (h ! a)) entries)"
  using assms
proof (induction entries arbitrary: updated h)
  case Nil
  show ?case by simp
next
  case (Cons a entries)
  then have a: "a < length h" by simp
  define h2 where "h2 = h @ [corrected_entry results (h ! a)]"
  have step: "apply_loop results (a # entries) (updated, h) =
                apply_loop results entries (updated @ [length h], h2)"
    using a
    by (simp add: deepcopy_def h2_def corrected_entry_def nth_append Let_def
        fold_write_field_fresh add_note_fresh split: option.splits)
  have in_range: "\<forall>x \<in> set entries. x < length h2"
    using Cons.prems by (auto simp: h2_def)
  have same: "map (\<lambda>x. corrected_entry results (h2 ! x)) entries =
              map (\<lambda>x. corrected_entry results (h ! x)) entries"
    using Cons.prems by (auto simp: h2_def nth_append)
  have idx: "[length h..<length h + length (a # entries)] =
             length h # [length h2..<length h2 + length entries]"
  proof -
    have "[length h..<length h + length (a # entries)] =
          length h # [Suc (length h)..<length h + length (a # entries)]"
      by (rule upt_conv_Cons) simp
    then show ?thesis by (simp add: h2_def)
  qed
  show ?case
    unfolding step Cons.IH [OF in_range] same idx by (simp add: h2_def)
qed

lemma find_result_None:
  "(find_result results i = None) =
     (\<not> (\<exists>r \<in> set (validated results @ mismatches results). Some (result_id r) = i))"
  by (auto simp: find_result_def find_None_iff)

lemma find_Some_member: "find P xs = Some x \<Longrightarrow> x \<in> set xs \<and> P x"
  by (induction xs) (auto split: if_splits)

lemma find_result_Some:
  assumes "find_result results i = Some r"
  shows "r \<in> set (validated results @ mismatches results) \<and> Some (result_id r) = i"
  using find_Some_member [OF assms [unfolded find_result_def]] by simp

lemma split_on_nonempty: "split_on sep cur s \<noteq> []"
  by (induction sep cur s rule: split_on.induct) auto

lemma join_Cons: "rest \<noteq> [] \<Longrightarrow> join sep (x # rest) = x @ sep @ join sep rest"
  by (cases rest) simp_all

lemma join_split_on: "join sep (split_on sep cur s) = cur @ s"
proof (induction sep cur s rule: split_on.induct)
  case (1 sep cur)
  show ?case by simp
next
  case (2 sep cur c cs)
  show ?case
  proof (cases "sep \<noteq> [] \<and> take (length sep) (c # cs) = sep")
    case True
    then have "sep @ drop (length sep) (c # cs) = c # cs"
      by (metis append_take_drop_id)
    with True 2(1) show ?thesis
      by (simp add: join_Cons split_on_nonempty del: drop_Suc_Cons take_Suc_Cons)
  next
    case False
    with 2(2) show ?thesis by auto
  qed
qed

lemma authors_to_list_str:
  "authors_to_list (PStr s) = map strip (filter (\<lambda>a. strip a \<noteq> []) (split_on '' and '' [] s))"
  by (cases s) (simp_all add: strip_def)

lemma authors_to_list_list:
  "authors_to_list (PList l) = map strip (filter (\<lambda>a. strip a \<noteq> []) l)"
  by simp

lemma author_issues_cases:
  "author_issues oa ca =
     (let ol = authors_to_list (PStr oa); cl = authors_to_list (PStr ca);
          mm = filter (\<lambda>(x, y). similarity x y < 3 / 4) (zip ol cl)
      in if length ol \<noteq> length cl
         then [''AUTHORS: Different count ('' @ show_nat (length ol) @ '' vs '' @ show_nat (length cl) @ '')'']
         else if 1 \<le> length mm \<and> length mm \<le> 3
         then [''AUTHORS: '' @ join ''; '' (map quote_pair mm)]
         else [])"
  by (auto simp: author_issues_def Let_def Suc_le_eq)

lemma author_issues_tagged: "\<forall>i \<in> set (author_issues oa ca). is_author_issue i"
  by (auto simp: author_issues_def Let_def is_author_issue_def)

lemma other_issues_untagged:
  "\<not> is_author_issue (CHR ''V'' # x)" "\<not> is_author_issue (CHR ''Y'' # x)"
  "\<not> is_author_issue (CHR ''T'' # x)"
  by (simp_all add: is_author_issue_def)

lemma compare_author_part:
  "filter is_author_issue (compare_with_corrected fmt original corrected) =
     (case (map_of corrected ''author'', map_of original ''author'') of
        (Some ca, Some oa) \<Rightarrow> author_issues oa ca
      | _ \<Rightarrow> [])"
proof -
  have a: "filter is_author_issue (author_issues oa ca) = author_issues oa ca" for oa ca
    using author_issues_tagged [of oa ca] by (simp add: filter_id_conv)
  show ?thesis
    by (simp add: compare_with_corrected_def Let_def a other_issues_untagged split: option.splits)
qed

section \<open>The claims\<close>

text \<open>
  C1. When at least one source matched, the corrected FieldMap and the search method of the
  result are those of the match of the first source, in the order dblp, scholar, semantic,
  that has a match, whatever the other sources returned; every stored match holds the fields
  its source extracted from its result; and the issues are those of the comparison of the
  entry with the FieldMap of every matching source, prefixed with the source's name in upper
  case and without duplicates.
\<close>

theorem corrected_from_highest_priority:
  assumes "validate_entry sources fmt e st = (res, st')" and "matches res \<noteq> []"
  shows "(\<forall>m. map_of (matches res) ''dblp'' = Some m \<longrightarrow>
            corrected_fields res = match_corrected_fields m \<and>
            search_method res = match_search_method m) \<and>
         (\<forall>m. map_of (matches res) ''dblp'' = None \<and> map_of (matches res) ''scholar'' = Some m \<longrightarrow>
            corrected_fields res = match_corrected_fields m \<and>
            search_method res = match_search_method m) \<and>
         (\<forall>m. map_of (matches res) ''dblp'' = None \<and> map_of (matches res) ''scholar'' = None \<and>
              map_of (matches res) ''semantic'' = Some m \<longrightarrow>
            corrected_fields res = match_corrected_fields m \<and>
            search_method res = match_search_method m) \<and>
         (map_of (matches res) ''dblp'' \<noteq> None \<or> map_of (matches res) ''scholar'' \<noteq> None \<or>
          map_of (matches res) ''semantic'' \<noteq> None) \<and>
         (\<forall>n m. map_of (matches res) n = Some m \<longrightarrow>
            (\<exists>source. sources n = Some source \<and>
               match_corrected_fields m = extract_bibtex_fields source (source_data m))) \<and>
         issues res = dict_fromkeys [] (concat (map (source_issues fmt e) (matches res))) \<and>
         set (issues res) =
           {upper n @ '': '' @ i | n m i.
              (n, m) \<in> set (matches res) \<and>
              i \<in> set (compare_with_corrected fmt e (match_corrected_fields m))}"
proof -
  define result where "result = fst (source_loop sources e DEFAULT_ORDER (initial_result e, st))"
  have ms: "matches res = matches result"
    using validate_entry_matches [of sources fmt e st] assms(1) by (simp add: result_def)
  note r = validate_entry_found [OF assms, folded result_def]
  have cf: "corrected_fields res = corrected_fields (choose_corrected DEFAULT_ORDER result)"
    and sm: "search_method res = search_method (choose_corrected DEFAULT_ORDER result)"
    and iss: "issues res = dict_fromkeys [] (concat (map (source_issues fmt e) (matches res)))"
    by (subst r, simp)+
  note prov = matches_provenance [of sources e DEFAULT_ORDER st, folded result_def, folded ms]
  have keys: "map_of (matches res) ''dblp'' \<noteq> None \<or> map_of (matches res) ''scholar'' \<noteq> None \<or>
          map_of (matches res) ''semantic'' \<noteq> None"
  proof -
    from assms(2) obtain n m rest where "matches res = (n, m) # rest"
      by (cases "matches res") auto
    then have g: "map_of (matches res) n = Some m" by simp
    with prov have "n \<in> set DEFAULT_ORDER" by blast
    with g show ?thesis by (auto simp: DEFAULT_ORDER_def)
  qed
  have "set (issues res) = set (concat (map (source_issues fmt e) (matches res)))"
    by (simp add: iss set_dict_fromkeys)
  also have "\<dots> = {upper n @ '': '' @ i | n m i.
              (n, m) \<in> set (matches res) \<and>
              i \<in> set (compare_with_corrected fmt e (match_corrected_fields m))}"
    by (auto simp: source_issues_def) force
  finally have iset: "set (issues res) = {upper n @ '': '' @ i | n m i.
              (n, m) \<in> set (matches res) \<and>
              i \<in> set (compare_with_corrected fmt e (match_corrected_fields m))}" .
  show ?thesis
    using keys prov iss iset
    by (simp add: cf sm ms DEFAULT_ORDER_def)
qed

theorem corrected_from_highest_priority_witness:
  "map fst (matches (fst (validate_entry [''dblp'' \<mapsto> ex_dblp, ''semantic'' \<mapsto> ex_semantic]
                            ex_fmt ex_entry ex_io))) = [''dblp'', ''semantic''] \<and>
   corrected_fields (fst (validate_entry [''dblp'' \<mapsto> ex_dblp, ''semantic'' \<mapsto> ex_semantic]
                            ex_fmt ex_entry ex_io)) = [(''title'', ''Deep Learning'')] \<and>
   search_method (fst (validate_entry [''dblp'' \<mapsto> ex_dblp, ''semantic'' \<mapsto> ex_semantic]
                         ex_fmt ex_entry ex_io)) = Some ''dblp:Title'' \<and>
   ''SEMANTIC: YEAR: 2020 vs 2021'' \<in>
     set (issues (fst (validate_entry [''dblp'' \<mapsto> ex_dblp, ''semantic'' \<mapsto> ex_semantic]
                         ex_fmt ex_entry ex_io)))"
proof -
  define S where "S = [''dblp'' \<mapsto> ex_dblp, ''semantic'' \<mapsto> ex_semantic]"
  define M1 :: "(string \<times> string) list option source_match" where
    "M1 = \<lparr>match_search_method = Some ''dblp:Title'',
            source_data = Some [(''title'', ''Deep Learning'')],
            match_corrected_fields = [(''title'', ''Deep Learning'')]\<rparr>"
  define M2 :: "(string \<times> string) list option source_match" where
    "M2 = \<lparr>match_search_method = Some ''semantic:DOI'',
            source_data = Some [(''title'', ''Deep Learning''), (''author'', ''A Smith''),
                                (''year'', ''2021''), (''venue'', ''NeurIPS''), (''doi'', ''10.1/x'')],
            match_corrected_fields = [(''title'', ''Deep Learning''), (''author'', ''A Smith''),
                                (''year'', ''2021''), (''venue'', ''NeurIPS''), (''doi'', ''10.1/x'')]\<rparr>"
  obtain res st' where v: "validate_entry S ex_fmt ex_entry ex_io = (res, st')"
    by (cases "validate_entry S ex_fmt ex_entry ex_io")
  have "matches (fst (source_loop S ex_entry DEFAULT_ORDER (initial_result ex_entry, ex_io))) =
          [(''dblp'', M1), (''semantic'', M2)]"
    unfolding S_def M1_def M2_def by code_simp
  then have ms: "matches res = [(''dblp'', M1), (''semantic'', M2)]"
    using validate_entry_matches [of S ex_fmt ex_entry ex_io] v by simp
  then have ne: "matches res \<noteq> []" by simp
  note inst = corrected_from_highest_priority [OF v ne]
  have d: "map_of (matches res) ''dblp'' = Some M1" by (simp add: ms)
  from inst d have c: "corrected_fields res = match_corrected_fields M1 \<and>
                       search_method res = match_search_method M1" by blast
  have y: "''YEAR: 2020 vs 2021'' \<in> set (compare_with_corrected ex_fmt ex_entry (match_corrected_fields M2))"
    unfolding M2_def by code_simp
  have "(''semantic'', M2) \<in> set (matches res)" by (simp add: ms)
  with y have "upper ''semantic'' @ '': '' @ ''YEAR: 2020 vs 2021'' \<in>
      {upper n @ '': '' @ i | n m i.
         (n, m) \<in> set (matches res) \<and>
         i \<in> set (compare_with_corrected ex_fmt ex_entry (match_corrected_fields m))}"
    by blast
  with inst have "upper ''semantic'' @ '': '' @ ''YEAR: 2020 vs 2021'' \<in> set (issues res)"
    by blast
  moreover have "upper ''semantic'' = ''SEMANTIC''" by code_simp
  ultimately have i: "''SEMANTIC: YEAR: 2020 vs 2021'' \<in> set (issues res)" by simp
  from ms have k: "map fst (matches res) = [''dblp'', ''semantic'']" by simp
  from c have c1: "corrected_fields res = [(''title'', ''Deep Learning'')]"
    and c2: "search_method res = Some ''dblp:Title''" by (simp_all add: M1_def)
  have r: "fst (validate_entry S ex_fmt ex_entry ex_io) = res" using v by simp
  show ?thesis
    unfolding S_def [symmetric] r using k c1 c2 i by (intro conjI)
qed

text \<open>
  C2. If no active source returns a result for the entry's DOI or title, the result has
  status \<open>not_found\<close> and the single issue \<open>Entry not found in any source\<close>. An entry with
  neither a DOI nor a title always ends so, whatever the sources would return: no search is
  called for it (the log of calls and the world are unchanged), and the Scholar and Semantic
  Scholar policies refuse it.
\<close>

theorem not_found_outcome:
  "((\<forall>n source. sources n = Some source \<longrightarrow>
        (\<forall>w. fst (search_by_doi source (get_or e ''doi'' []) w) = None \<and>
             fst (search_by_title source (get_or e ''title'' []) w) = None)) \<longrightarrow>
      status (fst (validate_entry sources fmt e st)) = ''not_found'' \<and>
      issues (fst (validate_entry sources fmt e st)) = [''Entry not found in any source'']) \<and>
   (\<not> truthy_get e ''doi'' \<and> \<not> truthy_get e ''title'' \<longrightarrow>
      status (fst (validate_entry sources fmt e st)) = ''not_found'' \<and>
      issues (fst (validate_entry sources fmt e st)) = [''Entry not found in any source''] \<and>
      snd (validate_entry sources fmt e st) = st \<and>
      scholar_should_attempt e = (False, ''missing title'') \<and>
      semantic_should_attempt e = (False, ''missing doi and title''))"
proof (intro conjI impI)
  assume h: "\<forall>n source. sources n = Some source \<longrightarrow>
        (\<forall>w. fst (search_by_doi source (get_or e ''doi'' []) w) = None \<and>
             fst (search_by_title source (get_or e ''title'' []) w) = None)"
  note m = no_results_no_matches [OF h, of DEFAULT_ORDER st]
  show "status (fst (validate_entry sources fmt e st)) = ''not_found''"
    by (rule validate_entry_not_found(1) [OF m])
  show "issues (fst (validate_entry sources fmt e st)) = [''Entry not found in any source'']"
    by (rule validate_entry_not_found(2) [OF m])
next
  assume h: "\<not> truthy_get e ''doi'' \<and> \<not> truthy_get e ''title''"
  then have nd: "\<not> truthy_get e ''doi''" and nt: "\<not> truthy_get e ''title''" by simp_all
  note l = no_doi_no_title_loop [OF nd nt, of sources DEFAULT_ORDER st]
  show "status (fst (validate_entry sources fmt e st)) = ''not_found''"
    by (rule validate_entry_not_found(1)) (simp add: l)
  show "issues (fst (validate_entry sources fmt e st)) = [''Entry not found in any source'']"
    by (rule validate_entry_not_found(2)) (simp add: l)
  show "snd (validate_entry sources fmt e st) = st"
    using validate_entry_not_found(3) [of sources e st fmt] l by simp
  show "scholar_should_attempt e = (False, ''missing title'')"
    using nt by (simp add: scholar_should_attempt_def)
  show "semantic_should_attempt e = (False, ''missing doi and title'')"
    using nd nt by (simp add: semantic_should_attempt_def)
qed

theorem not_found_outcome_witness:
  "status (fst (validate_entry [''dblp'' \<mapsto> ex_silent] ex_fmt ex_entry ex_io)) = ''not_found'' \<and>
   issues (fst (validate_entry [''dblp'' \<mapsto> ex_silent] ex_fmt ex_entry ex_io)) =
     [''Entry not found in any source''] \<and>
   status (fst (validate_entry [''dblp'' \<mapsto> ex_dblp, ''semantic'' \<mapsto> ex_semantic]
                  ex_fmt ex_entry2 ex_io)) = ''not_found'' \<and>
   snd (validate_entry [''dblp'' \<mapsto> ex_dblp, ''semantic'' \<mapsto> ex_semantic] ex_fmt ex_entry2 ex_io) = ex_io \<and>
   scholar_should_attempt ex_entry2 = (False, ''missing title'')"
proof -
  note a = not_found_outcome [where sources = "[''dblp'' \<mapsto> ex_silent]" and e = ex_entry
      and fmt = ex_fmt and st = ex_io]
  have pa: "\<forall>n source. [''dblp'' \<mapsto> ex_silent] n = Some source \<longrightarrow>
        (\<forall>w. fst (search_by_doi source (get_or ex_entry ''doi'' []) w) = None \<and>
             fst (search_by_title source (get_or ex_entry ''title'' []) w) = None)"
    by (simp add: ex_silent_def)
  note a1 = mp [OF a [THEN conjunct1] pa]
  note b = not_found_outcome [where sources = "[''dblp'' \<mapsto> ex_dblp, ''semantic'' \<mapsto> ex_semantic]"
      and e = ex_entry2 and fmt = ex_fmt and st = ex_io]
  have pb: "\<not> truthy_get ex_entry2 ''doi'' \<and> \<not> truthy_get ex_entry2 ''title''"
    by (simp add: truthy_get_def ex_entry2_def)
  note b1 = mp [OF b [THEN conjunct2] pb]
  show ?thesis
    using a1 b1 by (intro conjI) blast+
qed

text \<open>
  C3. For a source that \<open>should_attempt\<close> accepts, the searches run in this order. With a
  DOI, \<open>search_by_doi\<close> is called first, and a hit is recorded with the method
  \<open>source:DOI\<close> without any title search. \<open>search_by_title\<close> is called only when the entry
  has a title and either there is no DOI or the DOI search returned nothing; its hit is
  recorded with the method \<open>source:Title\<close>. A match is stored for the source exactly when
  the last search that ran returned a result.
\<close>

theorem search_fallback_order:
  "(truthy_get e ''doi'' \<and> search_by_doi source (get_or e ''doi'' []) (world st) = (Some r, w) \<longrightarrow>
      search_source source_name source e st =
        (Some \<lparr>match_search_method = Some (source_name @ '':DOI''), source_data = r,
               match_corrected_fields = extract_bibtex_fields source r\<rparr>,
         \<lparr>calls = calls st @ [SearchByDoi source_name (get_or e ''doi'' [])], world = w\<rparr>)) \<and>
   (truthy_get e ''doi'' \<and> search_by_doi source (get_or e ''doi'' []) (world st) = (None, w) \<and>
    truthy_get e ''title'' \<and> search_by_title source (get_or e ''title'' []) w = (found, w') \<longrightarrow>
      search_source source_name source e st =
        (case found of
           None \<Rightarrow> None
         | Some r \<Rightarrow>
             Some \<lparr>match_search_method = Some (source_name @ '':Title''), source_data = r,
                    match_corrected_fields = extract_bibtex_fields source r\<rparr>,
         \<lparr>calls = calls st @ [SearchByDoi source_name (get_or e ''doi'' []),
                               SearchByTitle source_name (get_or e ''title'' [])],
           world = w'\<rparr>)) \<and>
   (truthy_get e ''doi'' \<and> search_by_doi source (get_or e ''doi'' []) (world st) = (None, w) \<and>
    \<not> truthy_get e ''title'' \<longrightarrow>
      search_source source_name source e st =
        (None, \<lparr>calls = calls st @ [SearchByDoi source_name (get_or e ''doi'' [])], world = w\<rparr>)) \<and>
   (\<not> truthy_get e ''doi'' \<and> truthy_get e ''title'' \<and>
    search_by_title source (get_or e ''title'' []) (world st) = (found, w') \<longrightarrow>
      search_source source_name source e st =
        (case found of
           None \<Rightarrow> None
         | Some r \<Rightarrow>
             Some \<lparr>match_search_method = Some (source_name @ '':Title''), source_data = r,
                    match_corrected_fields = extract_bibtex_fields source r\<rparr>,
         \<lparr>calls = calls st @ [SearchByTitle source_name (get_or e ''title'' [])], world = w'\<rparr>)) \<and>
   (\<not> truthy_get e ''doi'' \<and> \<not> truthy_get e ''title'' \<longrightarrow>
      search_source source_name source e st = (None, st)) \<and>
   (sources source_name = Some source \<and> should_attempt source e = (True, why) \<longrightarrow>
      source_loop sources e (source_name # rest) (result, st) =
        (case search_source source_name source e st of
           (m, st') \<Rightarrow>
             source_loop sources e rest
               (result\<lparr>attempts := AList.update source_name (True, why) (attempts result),
                       matches := (case m of
                                     None \<Rightarrow> matches result
                                   | Some mm \<Rightarrow> AList.update source_name mm (matches result))\<rparr>,
                st')))"
  using search_source_doi_hit [of e source st r w source_name]
    search_source_doi_miss_title [of e source st w found w' source_name]
    search_source_doi_miss_no_title [of e source st w source_name]
    search_source_title_only [of e source st found w' source_name]
    search_source_nothing [of e source_name source st]
    source_loop_accepted [of sources source_name source e why rest result st]
  by (intro conjI impI) blast+

theorem search_fallback_order_witness:
  "search_source ''dblp'' ex_dblp ex_entry ex_io =
     (Some \<lparr>match_search_method = Some ''dblp:Title'',
            source_data = Some [(''title'', ''Deep Learning'')],
            match_corrected_fields = [(''title'', ''Deep Learning'')]\<rparr>,
      \<lparr>calls = [SearchByDoi ''dblp'' ''10.1/x'', SearchByTitle ''dblp'' ''Deep Learning''],
        world = 2\<rparr>)"
proof -
  note inst = search_fallback_order [where e = ex_entry and source = ex_dblp and st = ex_io
      and w = "Suc 0" and found = "Some (Some [(''title'', ''Deep Learning'')])"
      and w' = "Suc (Suc 0)" and source_name = "''dblp''"]
  have pre: "truthy_get ex_entry ''doi'' \<and>
             search_by_doi ex_dblp (get_or ex_entry ''doi'' []) (world ex_io) = (None, Suc 0) \<and>
             truthy_get ex_entry ''title'' \<and>
             search_by_title ex_dblp (get_or ex_entry ''title'' []) (Suc 0) =
               (Some (Some [(''title'', ''Deep Learning'')]), Suc (Suc 0))"
    by (simp add: truthy_get_def get_or_def ex_entry_def ex_dblp_def ex_io_def)
  note step = mp [OF inst [THEN conjunct2, THEN conjunct1] pre]
  show ?thesis
    unfolding step
    by (simp add: get_or_def ex_entry_def ex_dblp_def ex_io_def ex_extract_def)
qed

text \<open>
  C4, as the code has it. When both the entry and the corrected FieldMap have an author
  field, both values go through \<open>authors_to_list\<close>: a string is split on the literal
  \<open>" and "\<close>, every part is stripped of surrounding whitespace and blank parts are dropped
  (the elements of a list are stripped and the blank ones dropped in the same way). If the
  two counts differ, the one author issue is the count mismatch; if they are equal, the
  pairs at the same position with similarity below 0.75 are collected, and one combined
  issue lists them when there are one to three of them; with none or more than three, and
  when an author field is missing on either side, there is no author issue.
\<close>

theorem author_comparison:
  "(map_of original ''author'' = Some oa \<and> map_of corrected ''author'' = Some ca \<longrightarrow>
      filter is_author_issue (compare_with_corrected fmt original corrected) =
        (let ol = authors_to_list (PStr oa); cl = authors_to_list (PStr ca);
             mm = filter (\<lambda>(x, y). similarity x y < 3 / 4) (zip ol cl)
         in if length ol \<noteq> length cl
            then [''AUTHORS: Different count ('' @ show_nat (length ol) @ '' vs '' @
                    show_nat (length cl) @ '')'']
            else if 1 \<le> length mm \<and> length mm \<le> 3
            then [''AUTHORS: '' @ join ''; '' (map quote_pair mm)]
            else [])) \<and>
   (map_of original ''author'' = None \<or> map_of corrected ''author'' = None \<longrightarrow>
      filter is_author_issue (compare_with_corrected fmt original corrected) = []) \<and>
   authors_to_list (PStr s) = map strip (filter (\<lambda>a. strip a \<noteq> []) (split_on '' and '' [] s)) \<and>
   join '' and '' (split_on '' and '' [] s) = s \<and>
   authors_to_list (PList l) = map strip (filter (\<lambda>a. strip a \<noteq> []) l)"
proof (intro conjI impI)
  assume "map_of original ''author'' = Some oa \<and> map_of corrected ''author'' = Some ca"
  then show "filter is_author_issue (compare_with_corrected fmt original corrected) =
        (let ol = authors_to_list (PStr oa); cl = authors_to_list (PStr ca);
             mm = filter (\<lambda>(x, y). similarity x y < 3 / 4) (zip ol cl)
         in if length ol \<noteq> length cl
            then [''AUTHORS: Different count ('' @ show_nat (length ol) @ '' vs '' @
                    show_nat (length cl) @ '')'']
            else if 1 \<le> length mm \<and> length mm \<le> 3
            then [''AUTHORS: '' @ join ''; '' (map quote_pair mm)]
            else [])"
    by (simp only: compare_author_part author_issues_cases) simp
next
  assume "map_of original ''author'' = None \<or> map_of corrected ''author'' = None"
  then show "filter is_author_issue (compare_with_corrected fmt original corrected) = []"
    by (auto simp: compare_author_part split: option.splits)
next
  show "authors_to_list (PStr s) = map strip (filter (\<lambda>a. strip a \<noteq> []) (split_on '' and '' [] s))"
    by (rule authors_to_list_str)
  show "join '' and '' (split_on '' and '' [] s) = s"
    using join_split_on [of "'' and ''" "[]" s] by simp
  show "authors_to_list (PList l) = map strip (filter (\<lambda>a. strip a \<noteq> []) l)"
    by (rule authors_to_list_list)
qed

theorem author_comparison_witness:
  "filter is_author_issue
     (compare_with_corrected ex_fmt [(''author'', ''A Smith and B Jones'')] [(''author'', ''A Smith'')]) =
     [''AUTHORS: Different count (2 vs 1)''] \<and>
   authors_to_list (PList ['' A Smith '', ''  '']) = [''A Smith'']"
proof -
  note inst = author_comparison [where original = "[(''author'', ''A Smith and B Jones'')]"
      and corrected = "[(''author'', ''A Smith'')]" and oa = "''A Smith and B Jones''"
      and ca = "''A Smith''" and fmt = ex_fmt and l = "['' A Smith '', ''  '']"]
  have pre: "map_of [(''author'', ''A Smith and B Jones'')] ''author'' = Some ''A Smith and B Jones'' \<and>
             map_of [(''author'', ''A Smith'')] ''author'' = Some ''A Smith''"
    by simp
  note a = mp [OF inst [THEN conjunct1] pre]
  have o: "authors_to_list (PStr ''A Smith and B Jones'') = [''A Smith'', ''B Jones'']"
    by code_simp
  have c: "authors_to_list (PStr ''A Smith'') = [''A Smith'']"
    by code_simp
  have n: "show_nat (Suc (Suc 0)) = ''2''" "show_nat (Suc 0) = ''1''"
    by code_simp+
  have 1: "filter is_author_issue
     (compare_with_corrected ex_fmt [(''author'', ''A Smith and B Jones'')] [(''author'', ''A Smith'')]) =
     [''AUTHORS: Different count (2 vs 1)'']"
    unfolding a o c Let_def by (simp add: n)
  note b = inst [THEN conjunct2, THEN conjunct2, THEN conjunct2, THEN conjunct2]
  have "map strip (filter (\<lambda>a. strip a \<noteq> []) ['' A Smith '', ''  '']) = [''A Smith'']"
    by code_simp
  with b have 2: "authors_to_list (PList ['' A Smith '', ''  '']) = [''A Smith'']"
    by (rule trans)
  from 1 2 show ?thesis by (intro conjI)
qed

text \<open>
  C4 as the specification states it fails: split on the literal \<open>" and "\<close> alone, the two
  author strings below have three and two parts, yet no count mismatch is reported, because
  the blank part is dropped.
\<close>

theorem author_split_counterexample:
  "length (split_on '' and '' [] ''Ann and  and Bob'') = 3 \<and>
   length (split_on '' and '' [] ''Ann and Bob'') = 2 \<and>
   compare_with_corrected (\<lambda>r. [])
     [(''author'', ''Ann and  and Bob'')] [(''author'', ''Ann and Bob'')] = []"
  by code_simp

text \<open>
  C5. \<open>validate_all\<close> computes one result per entry, in input order, each carrying the
  identifier of its entry; every status is \<open>validated\<close>, \<open>mismatch\<close> or \<open>not_found\<close>, it is
  \<open>not_found\<close> exactly when no source matched and \<open>validated\<close> exactly when the issue list
  is empty; each bucket receives, in input order, exactly the results of its status; and
  the three buckets together grow by the number of entries.
\<close>

theorem validate_all_partition:
  assumes "validate_all sources fmt entries (b, st) = (b', st')"
  shows "let rs = fst (entry_results sources fmt entries st) in
           length rs = length entries \<and>
           map result_id rs = map (\<lambda>e. get_or e ''ID'' ''unknown'') entries \<and>
           (\<forall>r \<in> set rs.
              status r \<in> {''validated'', ''mismatch'', ''not_found''} \<and>
              (status r = ''not_found'') = (matches r = []) \<and>
              (status r = ''validated'') = (issues r = [])) \<and>
           validated b' = validated b @ filter (\<lambda>r. status r = ''validated'') rs \<and>
           mismatches b' = mismatches b @ filter (\<lambda>r. status r = ''mismatch'') rs \<and>
           not_found b' = not_found b @ filter (\<lambda>r. status r = ''not_found'') rs \<and>
           length (validated b') + length (mismatches b') + length (not_found b') =
             length (validated b) + length (mismatches b) + length (not_found b) + length entries"
proof -
  define rs where "rs = fst (entry_results sources fmt entries st)"
  have l: "validate_loop sources fmt entries (b, st) = (b', st')"
    using assms by (cases entries) (simp_all add: validate_all_def)
  note bk = validate_loop_buckets [OF l, folded rs_def]
  note pr = entry_results_props [of sources fmt entries st, folded rs_def]
  from pr have "\<forall>r \<in> set rs. status r \<in> {''validated'', ''mismatch'', ''not_found''}" by blast
  from partition_lengths [OF this] pr
  have "length (filter (\<lambda>r. status r = ''validated'') rs) +
         length (filter (\<lambda>r. status r = ''mismatch'') rs) +
         length (filter (\<lambda>r. status r = ''not_found'') rs) = length entries" by simp
  with bk have len: "length (validated b') + length (mismatches b') + length (not_found b') =
             length (validated b) + length (mismatches b) + length (not_found b) + length entries"
    by simp
  from pr have p1: "length rs = length entries"
    and p2: "map result_id rs = map (\<lambda>e. get_or e ''ID'' ''unknown'') entries"
    and p3: "\<forall>r \<in> set rs.
              status r \<in> {''validated'', ''mismatch'', ''not_found''} \<and>
              (status r = ''not_found'') = (matches r = []) \<and>
              (status r = ''validated'') = (issues r = [])"
    by blast+
  from bk have b1: "validated b' = validated b @ filter (\<lambda>r. status r = ''validated'') rs"
    and b2: "mismatches b' = mismatches b @ filter (\<lambda>r. status r = ''mismatch'') rs"
    and b3: "not_found b' = not_found b @ filter (\<lambda>r. status r = ''not_found'') rs"
    by blast+
  show ?thesis
    unfolding Let_def rs_def [symmetric]
    using p1 p2 p3 b1 b2 b3 len by (intro conjI)
qed

theorem validate_all_partition_witness:
  "length (validated (fst (validate_all [''semantic'' \<mapsto> ex_semantic] ex_fmt [ex_entry, ex_entry2]
                            (empty_results, ex_io)))) +
   length (mismatches (fst (validate_all [''semantic'' \<mapsto> ex_semantic] ex_fmt [ex_entry, ex_entry2]
                            (empty_results, ex_io)))) +
   length (not_found (fst (validate_all [''semantic'' \<mapsto> ex_semantic] ex_fmt [ex_entry, ex_entry2]
                            (empty_results, ex_io)))) = 2 \<and>
   map result_id (fst (entry_results [''semantic'' \<mapsto> ex_semantic] ex_fmt [ex_entry, ex_entry2] ex_io)) =
     [''k1'', ''k2'']"
proof -
  define S where "S = [''semantic'' \<mapsto> ex_semantic]"
  obtain b' st' where v: "validate_all S ex_fmt [ex_entry, ex_entry2] (empty_results, ex_io) = (b', st')"
    by (cases "validate_all S ex_fmt [ex_entry, ex_entry2] (empty_results, ex_io)")
  note inst = validate_all_partition [OF v, unfolded Let_def]
  from inst have "length (validated b') + length (mismatches b') + length (not_found b') =
      length (validated (empty_results :: (string \<times> string) list option batch_results)) +
      length (mismatches (empty_results :: (string \<times> string) list option batch_results)) +
      length (not_found (empty_results :: (string \<times> string) list option batch_results)) +
      length [ex_entry, ex_entry2]"
    by blast
  then have l: "length (validated b') + length (mismatches b') + length (not_found b') = 2"
    by (simp add: empty_results_def)
  from inst have "map result_id (fst (entry_results S ex_fmt [ex_entry, ex_entry2] ex_io)) =
      map (\<lambda>e. get_or e ''ID'' ''unknown'') [ex_entry, ex_entry2]"
    by blast
  then have i: "map result_id (fst (entry_results S ex_fmt [ex_entry, ex_entry2] ex_io)) = [''k1'', ''k2'']"
    by (simp add: get_or_def ex_entry_def ex_entry2_def)
  have r: "fst (validate_all S ex_fmt [ex_entry, ex_entry2] (empty_results, ex_io)) = b'"
    using v by simp
  show ?thesis
    unfolding S_def [symmetric] r using l i by (intro conjI)
qed

text \<open>
  C6, as the code has it. \<open>apply_corrections_to_entries\<close> leaves every object of the store
  as it was and returns fresh copies, one per entry, in order. The copy of an entry is
  equal to the entry when no validated or mismatch result has the entry's identifier.
  Otherwise the first such result is applied, whether or not its corrected FieldMap is
  empty: its non-empty fields are written (\<open>venue\<close> to \<open>journal\<close> for an article, to
  \<open>booktitle\<close> otherwise) and the note \<open>Validated via\<close> its search method is set or appended;
  with an empty FieldMap only the note changes.
\<close>

theorem corrections_frame:
  "((\<forall>a \<in> set entries. a < length h) \<longrightarrow>
      apply_corrections_to_entries results entries h =
        ([length h..<length h + length entries],
         h @ map (\<lambda>a. corrected_entry results (h ! a)) entries)) \<and>
   ((\<forall>r \<in> set (validated results @ mismatches results). Some (result_id r) \<noteq> map_of e ''ID'') \<longrightarrow>
      corrected_entry results e = e) \<and>
   (find_result results (map_of e ''ID'') = Some r \<longrightarrow>
      r \<in> set (validated results @ mismatches results) \<and>
      Some (result_id r) = map_of e ''ID'' \<and>
      corrected_entry results e =
        AList.update ''note'' (note_value (search_method r) (fold (write_value e) (corrected_fields r) e))
          (fold (write_value e) (corrected_fields r) e) \<and>
      map_of (corrected_entry results e) ''note'' =
        Some (note_value (search_method r) (fold (write_value e) (corrected_fields r) e)) \<and>
      (corrected_fields r = [] \<longrightarrow>
         corrected_entry results e = AList.update ''note'' (note_value (search_method r) e) e))"
proof (intro conjI impI)
  assume "\<forall>a \<in> set entries. a < length h"
  then show "apply_corrections_to_entries results entries h =
        ([length h..<length h + length entries],
         h @ map (\<lambda>a. corrected_entry results (h ! a)) entries)"
    by (simp add: apply_corrections_to_entries_def apply_loop_fresh)
next
  assume "\<forall>r \<in> set (validated results @ mismatches results). Some (result_id r) \<noteq> map_of e ''ID''"
  then have "find_result results (map_of e ''ID'') = None"
    unfolding find_result_None by blast
  then show "corrected_entry results e = e"
    by (simp add: corrected_entry_def)
next
  assume f: "find_result results (map_of e ''ID'') = Some r"
  from find_result_Some [OF f]
  show "r \<in> set (validated results @ mismatches results)"
    and "Some (result_id r) = map_of e ''ID''" by simp_all
  show c: "corrected_entry results e =
        AList.update ''note'' (note_value (search_method r) (fold (write_value e) (corrected_fields r) e))
          (fold (write_value e) (corrected_fields r) e)"
    using f by (simp add: corrected_entry_def Let_def)
  show "map_of (corrected_entry results e) ''note'' =
        Some (note_value (search_method r) (fold (write_value e) (corrected_fields r) e))"
    unfolding c by (simp add: update_conv')
  assume "corrected_fields r = []"
  then show "corrected_entry results e = AList.update ''note'' (note_value (search_method r) e) e"
    unfolding c by simp
qed

theorem corrections_frame_witness:
  "apply_corrections_to_entries ex_results [0, 1] [ex_entry, ex_entry2] =
     ([2, 3],
      [ex_entry, ex_entry2,
       [(''ID'', ''k1''), (''ENTRYTYPE'', ''article''), (''title'', ''Deep Learning''),
        (''doi'', ''10.1/x''), (''year'', ''2021''), (''author'', ''A Smith''),
        (''journal'', ''NeurIPS''), (''note'', ''Validated via semantic:DOI'')],
       ex_entry2])"
proof -
  note inst = corrections_frame [where entries = "[0, 1]" and h = "[ex_entry, ex_entry2]"
      and results = ex_results and e = ex_entry2]
  have pre: "\<forall>a \<in> set [0, 1]. a < length [ex_entry, ex_entry2]" by simp
  note frame = mp [OF inst [THEN conjunct1] pre]
  have nf: "\<forall>r \<in> set (validated ex_results @ mismatches ex_results).
              Some (result_id r) \<noteq> map_of ex_entry2 ''ID''"
    by (simp add: ex_results_def ex_entry2_def)
  note same = mp [OF inst [THEN conjunct2, THEN conjunct1] nf]
  have upd: "corrected_entry ex_results ex_entry =
       [(''ID'', ''k1''), (''ENTRYTYPE'', ''article''), (''title'', ''Deep Learning''),
        (''doi'', ''10.1/x''), (''year'', ''2021''), (''author'', ''A Smith''),
        (''journal'', ''NeurIPS''), (''note'', ''Validated via semantic:DOI'')]"
    by code_simp
  have idx: "[length [ex_entry, ex_entry2]..<length [ex_entry, ex_entry2] + length [0::nat, 1]] = [2, 3]"
    by code_simp
  show ?thesis
    unfolding frame idx by (simp add: same upd)
qed

text \<open>
  C6 as the specification states it fails: a Scholar result without a \<open>bib\<close> dictionary gives
  the empty FieldMap, the entry is validated with it, and its copy still gets the
  provenance note.
\<close>

theorem empty_fieldmap_note_counterexample:
  "map corrected_fields
     (validated (fst (validate_all [''scholar'' \<mapsto> ex_scholar] ex_fmt [ex_entry]
                        (empty_results, ex_io)))) = [[]] \<and>
   apply_corrections_to_entries
     (fst (validate_all [''scholar'' \<mapsto> ex_scholar] ex_fmt [ex_entry] (empty_results, ex_io)))
     [0] [ex_entry] =
     ([1], [ex_entry, ex_entry @ [(''note'', ''Validated via scholar:Title'')]])"
  by code_simp

text \<open>
  C7, as the code has it. \<open>normalize_string\<close> returns the empty string on \<open>None\<close> and on the
  empty string; on any other string it replaces command wrappers by their content, removes
  the braces, lower-cases, replaces every character that is neither a word character nor
  whitespace by a space, and joins the whitespace-separated words with single spaces; a
  command wrapper (backslash, ASCII letters, a braced group without a closing brace inside)
  is replaced by the content of the group; and the result is always a sequence of words
  separated by single spaces, with no space at either end, where a word is a non-empty run
  of lower-case word characters: alphanumeric characters and the underscore, which the
  class \<open>\\w\<close> of the code keeps.
\<close>

theorem normalize_string_shape:
  "normalize_string None = [] \<and> normalize_string (Some []) = [] \<and>
   (t \<noteq> [] \<longrightarrow>
      normalize_string (Some t) =
        join '' '' (split_ws (map clean_chr (lower (filter (\<lambda>c. \<not> is_brace c) (strip_latex t)))))) \<and>
   (cmd \<noteq> [] \<and> (\<forall>c \<in> set cmd. is_ascii_letter c) \<and> CHR ''}'' \<notin> set inner \<longrightarrow>
      strip_latex (CHR 0x5C # cmd @ CHR ''{'' # inner @ CHR ''}'' # rest) = inner @ strip_latex rest) \<and>
   (\<exists>ts. normalize_string s = join '' '' ts \<and> (\<forall>t \<in> set ts. norm_word t))"
proof -
  have "\<exists>ts. normalize_string s = join '' '' ts \<and> (\<forall>t \<in> set ts. norm_word t)"
  proof (cases s)
    case None
    then have "normalize_string s = join '' '' []" by (simp add: normalize_string_def)
    then show ?thesis by fastforce
  next
    case (Some x)
    then show ?thesis using normalize_tokens [of x] by (simp add: normalize_string_def)
  qed
  then show ?thesis
    using strip_latex_wrapper [of cmd inner rest]
    by (simp add: normalize_string_def normalize_str_def)
qed

theorem normalize_string_shape_witness:
  "normalize_string (Some (CHR 0x5C # ''emph{Deep}  Learning_X!'')) = ''deep learning_x'' \<and>
   strip_latex (CHR 0x5C # ''emph{Deep}  Learning_X!'') = ''Deep  Learning_X!'' \<and>
   (\<exists>ts. ts \<noteq> [] \<and> ''deep learning_x'' = join '' '' ts \<and> list_all norm_word ts)"
proof -
  let ?s = "CHR 0x5C # ''emph{Deep}  Learning_X!''"
  note inst = normalize_string_shape [of ?s "''emph''" "''Deep''" "''  Learning_X!''" "Some ?s"]
  have v: "normalize_string (Some ?s) = ''deep learning_x''"
    by code_simp
  have pre: "''emph'' \<noteq> [] \<and> (\<forall>c \<in> set ''emph''. is_ascii_letter c) \<and> CHR ''}'' \<notin> set ''Deep''"
    by (simp add: is_ascii_letter_def)
  note step = mp [OF inst [THEN conjunct2, THEN conjunct2, THEN conjunct2, THEN conjunct1] pre]
  have "strip_latex ''  Learning_X!'' = ''  Learning_X!''"
    by (rule strip_latex_id) simp
  with step have w: "strip_latex ?s = ''Deep  Learning_X!''"
    by simp
  from inst obtain ts where ts: "normalize_string (Some ?s) = join '' '' ts" "\<forall>t \<in> set ts. norm_word t"
    by blast
  from ts(1) v have j: "''deep learning_x'' = join '' '' ts"
    by simp
  then have "ts \<noteq> []"
    by auto
  with j ts(2) have "\<exists>ts. ts \<noteq> [] \<and> ''deep learning_x'' = join '' '' ts \<and> list_all norm_word ts"
    by (auto simp: list_all_iff)
  with v w show ?thesis
    by (intro conjI)
qed

text \<open>
  C7 as the specification states it fails: the underscore is not alphanumeric and is not a
  separating space, and it stays in the output.
\<close>

theorem normalize_string_underscore_counterexample:
  "normalize_string (Some ''a_b'') = ''a_b'' \<and> \<not> is_alnum_chr (CHR ''_'') \<and> CHR ''_'' \<noteq> CHR '' ''"
proof -
  have "normalize_string (Some ''a_b'') = ''a_b''"
    by code_simp
  moreover have "\<not> is_alnum_chr (CHR ''_'')"
    by (simp add: is_alnum_chr_def)
  ultimately show ?thesis by simp
qed

text \<open>
  C8: \<open>normalize_string\<close> is idempotent, on every string and on \<open>None\<close>.
\<close>

theorem normalize_string_idempotent:
  "normalize_string (Some (normalize_string s)) = normalize_string s"
proof (cases s)
  case None
  then show ?thesis by (simp add: normalize_string_def normalize_str_def)
next
  case (Some x)
  obtain ts where "normalize_str x = join '' '' ts" and "\<forall>t \<in> set ts. norm_word t"
    using normalize_tokens by blast
  with Some show ?thesis by (simp add: normalize_string_def normalize_join)
qed

theorem normalize_string_idempotent_witness:
  "normalize_string (Some (normalize_string (Some ''A_b  {C}''))) = normalize_string (Some ''A_b  {C}'')"
  by (rule normalize_string_idempotent)

text \<open>
  C9: the similarity of a string with itself is 1, also for the empty string, and more
  generally the similarity of two strings with the same normalised form is 1.
\<close>

theorem similarity_identical:
  "similarity s s = 1 \<and> similarity [] [] = 1 \<and>
   (normalize_string (Some a) = normalize_string (Some b) \<longrightarrow> similarity a b = 1)"
  by (simp add: similarity_def ratio_same)

theorem similarity_identical_witness:
  "normalize_string (Some ''Deep  Learning!'') = normalize_string (Some ''deep learning'') \<and>
   similarity ''Deep  Learning!'' ''deep learning'' = 1 \<and>
   similarity ''Deep  Learning!'' ''Deep  Learning!'' = 1"
proof -
  note inst = similarity_identical [of "''Deep  Learning!''" "''Deep  Learning!''" "''deep learning''"]
  have e: "normalize_string (Some ''Deep  Learning!'') = normalize_string (Some ''deep learning'')"
    by code_simp
  from inst have "similarity ''Deep  Learning!'' ''Deep  Learning!'' = 1"
    by (rule conjunct1)
  moreover from inst e have "similarity ''Deep  Learning!'' ''deep learning'' = 1"
    by (elim conjE impE) assumption
  ultimately show ?thesis using e by (intro conjI)
qed

text \<open>
  C10. The Scholar source's \<open>search_by_doi\<close> returns \<open>None\<close> for every DOI and leaves the
  world as it is; so a match stored for \<open>scholar\<close> by \<open>validate_entry\<close> always has the search
  method \<open>scholar:Title\<close>, never \<open>scholar:DOI\<close>.
\<close>

theorem scholar_never_by_doi:
  "scholar_search_by_doi doi w = (None, w) \<and>
   (sources ''scholar'' = Some (ScholarSource search_pubs) \<and>
    map_of (matches (fst (validate_entry sources fmt e st))) ''scholar'' = Some m \<longrightarrow>
      match_search_method m = Some ''scholar:Title'' \<and>
      match_search_method m \<noteq> Some ''scholar:DOI'')"
  using scholar_matches_by_title [of sources search_pubs e DEFAULT_ORDER st]
  by (auto simp: scholar_search_by_doi_def validate_entry_matches)

theorem scholar_never_by_doi_witness:
  "\<exists>m. map_of (matches (fst (validate_entry [''scholar'' \<mapsto> ex_scholar] ex_fmt ex_entry ex_io)))
          ''scholar'' = Some m \<and>
       match_search_method m = Some ''scholar:Title'' \<and>
       match_search_method m \<noteq> Some ''scholar:DOI''"
proof -
  define M :: "(string \<times> string) list option source_match" where
    "M = \<lparr>match_search_method = Some ''scholar:Title'', source_data = None,
           match_corrected_fields = []\<rparr>"
  have "matches (fst (source_loop [''scholar'' \<mapsto> ex_scholar] ex_entry DEFAULT_ORDER
                        (initial_result ex_entry, ex_io))) = [(''scholar'', M)]"
    unfolding M_def by code_simp
  then have ms: "map_of (matches (fst (validate_entry [''scholar'' \<mapsto> ex_scholar] ex_fmt ex_entry ex_io)))
          ''scholar'' = Some M"
    by (simp add: validate_entry_matches)
  note inst = scholar_never_by_doi [where sources = "[''scholar'' \<mapsto> ex_scholar]"
      and search_pubs = "\<lambda>title w. (Some None, Suc w)" and fmt = ex_fmt and e = ex_entry
      and st = ex_io and m = M]
  have src: "[''scholar'' \<mapsto> ex_scholar] ''scholar'' = Some (ScholarSource (\<lambda>title w. (Some None, Suc w)))"
    by (simp add: ex_scholar_def)
  note concl = mp [OF inst [THEN conjunct2] conjI [OF src ms]]
  from ms concl show ?thesis by blast
qed

end
